theory Spec2Isabelle
  imports Main "HOL-Library.AList"
begin

chapter \<open>The dispatch core of rayBench.py\<close>

text \<open>
  A shallow embedding of the scheduling policies, the worker actor, the pipeline
  dispatcher and the completion handler of \<^verbatim>\<open>inference/benchmark/rayBench.py\<close>.
  Python exceptions are values of the type \<open>pyError\<close>; a function that can raise returns
  \<open>pyError + 'a\<close> with \<open>Inl\<close> the exception.
\<close>

datatype pyError =
    ZeroDivisionError
  | IndexError
  | KeyError
  | AttributeError
  | AssertionError
  | RuntimeError
  | ValueError

section \<open>handleCompletion\<close>

text \<open>
  A message of the completion queue is the pair \<open>(resp, qid)\<close> that \<^verbatim>\<open>queue.get()\<close>
  returns. \<^verbatim>\<open>isinstance(resp, int)\<close> separates the driver's integer from a result.
\<close>

datatype 'r resp = IntResp int | Results 'r

type_synonym ('r, 'q) message = "'r resp \<times> 'q"

text \<open>
  How a run of the handler on a given queue content ends: the loop condition became
  false or \<^verbatim>\<open>break\<close> was reached (\<open>Exited\<close>), or the handler is suspended in
  \<^verbatim>\<open>queue.get()\<close> on an empty queue (\<open>BlockedOnGet\<close>).
\<close>

datatype handlerEnd = Exited | BlockedOnGet

text \<open>
  The loop of \<^verbatim>\<open>handleCompletion\<close>, with the local variables \<^verbatim>\<open>ncomplete\<close>,
  \<^verbatim>\<open>targetComplete\<close> (\<open>None\<close> until set) and \<^verbatim>\<open>wrapItUp\<close> as arguments. The
  result holds, besides how the run ended, the query ids passed to
  \<^verbatim>\<open>mlperf_loadgen.QuerySamplesComplete\<close> in order, and the messages left in the queue.
\<close>

fun handleCompletionLoop ::
  "int \<Rightarrow> int option \<Rightarrow> bool \<Rightarrow> 'q list \<Rightarrow> ('r, 'q) message list
    \<Rightarrow> handlerEnd \<times> 'q list \<times> ('r, 'q) message list" where
  "handleCompletionLoop ncomplete targetComplete wrapItUp acked [] =
     (if \<not> wrapItUp \<or> Some ncomplete \<noteq> targetComplete
      then (BlockedOnGet, acked, [])
      else (Exited, acked, []))"
| "handleCompletionLoop ncomplete targetComplete wrapItUp acked ((resp, qid) # queue) =
     (if \<not> wrapItUp \<or> Some ncomplete \<noteq> targetComplete
      then (case resp of
              IntResp n \<Rightarrow>
                (if ncomplete = n then (Exited, acked, queue)
                 else handleCompletionLoop ncomplete (Some n) True acked queue)
            | Results r \<Rightarrow>
                handleCompletionLoop (ncomplete + 1) targetComplete wrapItUp
                  (acked @ [qid]) queue)
      else (Exited, acked, (resp, qid) # queue))"

definition handleCompletion ::
  "('r, 'q) message list \<Rightarrow> handlerEnd \<times> 'q list \<times> ('r, 'q) message list" where
  "handleCompletion queue = handleCompletionLoop 0 None False [] queue"

section \<open>PolicyRR\<close>

text \<open>
  An actor handle is identified by the order of creation: the \<open>i\<close>-th
  \<^verbatim>\<open>runActor.remote()\<close> of a policy is the actor \<open>i\<close>.
\<close>

type_synonym actor = nat

record PolicyRR =
  lastRR :: nat
  rrActors :: "actor list"

definition PolicyRR_init :: "nat \<Rightarrow> PolicyRR" where
  "PolicyRR_init nRunner = \<lparr>lastRR = 0, rrActors = [0..<nRunner]\<rparr>"

text \<open>
  \<^verbatim>\<open>self.last = (self.last + 1) % len(self.actors)\<close> raises on an empty actor list.
  The method returns the actor alone. The fields \<^verbatim>\<open>last\<close> and \<^verbatim>\<open>actors\<close> are
  \<open>lastRR\<close> and \<open>rrActors\<close> here.
\<close>

definition PolicyRR_getRunner :: "PolicyRR \<Rightarrow> pyError + (actor \<times> PolicyRR)" where
  "PolicyRR_getRunner p =
     (if length (rrActors p) = 0 then Inl ZeroDivisionError
      else let l = (lastRR p + 1) mod length (rrActors p)
           in Inr (rrActors p ! l, p\<lparr>lastRR := l\<rparr>))"

text \<open>\<open>n\<close> successive calls; the actors returned, in order.\<close>

fun PolicyRR_getRunners :: "nat \<Rightarrow> PolicyRR \<Rightarrow> pyError + (actor list \<times> PolicyRR)" where
  "PolicyRR_getRunners 0 p = Inr ([], p)"
| "PolicyRR_getRunners (Suc n) p =
     (case PolicyRR_getRunner p of
        Inl e \<Rightarrow> Inl e
      | Inr (a, p') \<Rightarrow>
          (case PolicyRR_getRunners n p' of
             Inl e \<Rightarrow> Inl e
           | Inr (as, p'') \<Rightarrow> Inr (a # as, p'')))"

section \<open>Outcomes of a call\<close>

text \<open>
  The policies are modelled for one caller at a time. A call that would suspend the
  caller has an outcome of its own: the state is the one reached when the caller
  suspends. \<open>BlockedOnReservedCv\<close> is \<^verbatim>\<open>slist.reservedCv.wait()\<close>, which takes no
  timeout; \<open>BlockedOnRayWait\<close> is a \<^verbatim>\<open>ray.wait\<close> that has not returned; \<open>Looping\<close> is
  a \<^verbatim>\<open>while True\<close> loop that has not ended within the iterations the model was given.
\<close>

datatype 'a outcome =
    Returned 'a
  | Raised pyError
  | BlockedOnReservedCv
  | BlockedOnRayWait
  | Looping

section \<open>actorStatus and statusList\<close>

datatype actorState = RESERVED | IDLE | BUSY

text \<open>A Ray \<^verbatim>\<open>ObjectRef\<close>.\<close>

type_synonym objectRef = nat

record actorStatus =
  state :: actorState
  ref :: "objectRef option"

definition actorStatus_init :: actorStatus where
  "actorStatus_init = \<lparr>state = IDLE, ref = None\<rparr>"

text \<open>
  A handle returned by \<^verbatim>\<open>getRunner\<close> is a pointer to an \<^verbatim>\<open>actorStatus\<close> object, and
  \<^verbatim>\<open>update\<close> writes through it, also after \<^verbatim>\<open>scaleDown\<close> has removed the object from
  the list. So the objects live in a store (\<open>heap\<close>, from addresses to objects, with
  \<open>nextStatus\<close> the next unused address) and \<open>statuses\<close> is the list of their addresses.
  The lock and the condition variable have no state of their own in a model of one
  caller.
\<close>

record statusList =
  statuses :: "nat list"
  nReserved :: int
  heap :: "nat \<Rightarrow> actorStatus"
  nextStatus :: nat

definition statusList_init :: statusList where
  "statusList_init =
     \<lparr>statuses = [], nReserved = 0, heap = (\<lambda>_. actorStatus_init), nextStatus = 0\<rparr>"

text \<open>\<^verbatim>\<open>actorStatus()\<close>: a new object at the next unused address.\<close>

definition newStatus :: "statusList \<Rightarrow> nat \<times> statusList" where
  "newStatus sl =
     (nextStatus sl,
      sl\<lparr>heap := (heap sl)(nextStatus sl := actorStatus_init),
         nextStatus := Suc (nextStatus sl)\<rparr>)"

definition setState :: "statusList \<Rightarrow> nat \<Rightarrow> actorState \<Rightarrow> statusList" where
  "setState sl s newState = sl\<lparr>heap := (heap sl)(s := (heap sl s)\<lparr>state := newState\<rparr>)\<rparr>"

definition setRef :: "statusList \<Rightarrow> nat \<Rightarrow> objectRef option \<Rightarrow> statusList" where
  "setRef sl s r = sl\<lparr>heap := (heap sl)(s := (heap sl s)\<lparr>ref := r\<rparr>)\<rparr>"

text \<open>\<^verbatim>\<open>statusList.updateState\<close>; every caller holds the lock that it asserts.\<close>

definition updateState :: "statusList \<Rightarrow> nat \<Rightarrow> actorState \<Rightarrow> statusList" where
  "updateState sl status newState =
     (if state (heap sl status) = RESERVED
      then setState (sl\<lparr>nReserved := nReserved sl - 1\<rparr>) status newState
      else if newState = RESERVED
      then setState (sl\<lparr>nReserved := nReserved sl + 1\<rparr>) status newState
      else setState sl status newState)"

section \<open>pickActorBalanced\<close>

text \<open>
  The first \<^verbatim>\<open>for\<close> loop: the index and the address of the first IDLE status, or the
  \<^verbatim>\<open>ref\<close> fields of the BUSY ones.
\<close>

datatype scanResult = FoundIdle nat nat | Outstanding "objectRef option list"

fun scanStatuses ::
  "(nat \<Rightarrow> actorStatus) \<Rightarrow> nat \<Rightarrow> nat list \<Rightarrow> objectRef option list \<Rightarrow> scanResult" where
  "scanStatuses h i [] outstanding = Outstanding outstanding"
| "scanStatuses h i (status # rest) outstanding =
     (if state (h status) = IDLE then FoundIdle i status
      else if state (h status) = BUSY
      then scanStatuses h (i + 1) rest (outstanding @ [ref (h status)])
      else scanStatuses h (i + 1) rest outstanding)"

text \<open>
  The first \<^verbatim>\<open>with slist.reservedCv\<close> block: either the call ends there (with a
  result, an exception, or suspended on the condition variable), or it goes on to
  \<^verbatim>\<open>ray.wait(outstanding, ...)\<close>.
\<close>

datatype firstBlock =
    Ends "nat option outcome" statusList
  | Waits "objectRef option list"

definition firstBlock :: "statusList \<Rightarrow> firstBlock" where
  "firstBlock sl =
     (if length (statuses sl) = 0 then Ends (Returned None) sl
      else if nReserved sl = int (length (statuses sl)) then Ends BlockedOnReservedCv sl
      else (case scanStatuses (heap sl) 0 (statuses sl) [] of
              FoundIdle i status \<Rightarrow> Ends (Returned (Some i)) (updateState sl status RESERVED)
            | Outstanding outstanding \<Rightarrow>
                if length outstanding = 0 then Ends (Raised AssertionError) sl
                else Waits outstanding))"

text \<open>
  The loops over \<^verbatim>\<open>done\<close> and over the statuses in the second block: the inner loop
  for one reference, then the outer one. \<open>Inl\<close> is a failed \<^verbatim>\<open>assert\<close>, with the state
  reached.
\<close>

fun markReady ::
  "objectRef \<Rightarrow> nat \<Rightarrow> nat list \<Rightarrow> statusList \<Rightarrow> nat option
    \<Rightarrow> (pyError \<times> statusList) + (statusList \<times> nat option)" where
  "markReady r i [] sl idleRunner = Inr (sl, idleRunner)"
| "markReady r i (status # rest) sl idleRunner =
     (if state (heap sl status) = IDLE then markReady r (i + 1) rest sl (Some i)
      else if ref (heap sl status) = Some r
      then (if state (heap sl status) \<noteq> BUSY then Inl (AssertionError, sl)
            else markReady r (i + 1) rest
                   (setRef (updateState sl status IDLE) status None) (Some i))
      else markReady r (i + 1) rest sl idleRunner)"

fun markAllReady ::
  "objectRef list \<Rightarrow> statusList \<Rightarrow> nat option
    \<Rightarrow> (pyError \<times> statusList) + (statusList \<times> nat option)" where
  "markAllReady [] sl idleRunner = Inr (sl, idleRunner)"
| "markAllReady (r # rs) sl idleRunner =
     (case markReady r 0 (statuses sl) sl idleRunner of
        Inl e \<Rightarrow> Inl e
      | Inr (sl', idleRunner') \<Rightarrow> markAllReady rs sl' idleRunner')"

text \<open>
  \<^verbatim>\<open>pickActorBalanced(slist, timeout)\<close>. The last argument holds what the successive
  calls of \<^verbatim>\<open>ray.wait\<close> return as \<^verbatim>\<open>done\<close>, one list for each iteration of the
  \<^verbatim>\<open>while True\<close> loop that reaches it. An empty \<^verbatim>\<open>done\<close> is the timeout expiring:
  without a timeout \<^verbatim>\<open>ray.wait\<close> does not return before a reference is ready. When
  the list is used up the caller is in \<^verbatim>\<open>ray.wait\<close>.
\<close>

fun pickActorBalanced ::
  "statusList \<Rightarrow> 't option \<Rightarrow> objectRef list list \<Rightarrow> nat option outcome \<times> statusList" where
  "pickActorBalanced sl timeout [] =
     (case firstBlock sl of
        Ends res sl' \<Rightarrow> (res, sl')
      | Waits outstanding \<Rightarrow> (BlockedOnRayWait, sl))"
| "pickActorBalanced sl timeout (done # waits) =
     (case firstBlock sl of
        Ends res sl' \<Rightarrow> (res, sl')
      | Waits outstanding \<Rightarrow>
          if length done = 0
          then (case timeout of
                  None \<Rightarrow> (BlockedOnRayWait, sl)
                | Some t \<Rightarrow> (Returned None, sl))
          else (case markAllReady done sl None of
                  Inl (e, sl') \<Rightarrow> (Raised e, sl')
                | Inr (sl', None) \<Rightarrow> pickActorBalanced sl' timeout waits
                | Inr (sl', Some idleRunner) \<Rightarrow>
                    if idleRunner < length (statuses sl')
                    then (Returned (Some idleRunner),
                          updateState sl' (statuses sl' ! idleRunner) RESERVED)
                    else (Raised IndexError, sl')))"

section \<open>runActor\<close>

text \<open>
  The state of a \<^verbatim>\<open>runActor\<close>: the model cache and the statistics, both keyed by
  \<^verbatim>\<open>clientID\<close>, and whether \<^verbatim>\<open>terminate\<close> has run. \<open>'m\<close> is a model instance and
  \<open>'p\<close> an \<^verbatim>\<open>infbench.profCollection\<close>.
\<close>

record ('c, 'm, 'p) runActor =
  modelCache :: "'c \<rightharpoonup> 'm"
  stats :: "'c \<rightharpoonup> 'p"
  exited :: bool

definition runActor_init :: "('c, 'm, 'p) runActor" where
  "runActor_init = \<lparr>modelCache = Map.empty, stats = Map.empty, exited = False\<rparr>"

definition runActor_getStats ::
  "('c, 'm, 'p) runActor \<Rightarrow> ('c \<rightharpoonup> 'p) \<times> ('c, 'm, 'p) runActor" where
  "runActor_getStats a = (stats a, a\<lparr>stats := Map.empty\<rparr>)"

definition runActor_terminate :: "('c, 'm, 'p) runActor \<Rightarrow> ('c, 'm, 'p) runActor" where
  "runActor_terminate a = a\<lparr>exited := True\<rparr>"

text \<open>
  \<^verbatim>\<open>mergePerClientStats(base, delta)\<close>. \<^verbatim>\<open>profCollection.merge\<close> is not part of the
  sources at hand and is the parameter \<open>merge\<close>. The loop visits every key of \<open>delta\<close>
  once, and the visits touch different keys.
\<close>

definition mergePerClientStats ::
  "('p \<Rightarrow> 'p \<Rightarrow> 'p) \<Rightarrow> ('c \<rightharpoonup> 'p) \<Rightarrow> ('c \<rightharpoonup> 'p) \<Rightarrow> ('c \<rightharpoonup> 'p)" where
  "mergePerClientStats merge base delta =
     (\<lambda>cID. case delta cID of
               None \<Rightarrow> base cID
             | Some deltaClient \<Rightarrow>
                 (case base cID of
                    None \<Rightarrow> Some deltaClient
                  | Some b \<Rightarrow> Some (merge b deltaClient)))"

section \<open>PolicyBalance\<close>

text \<open>
  Besides the three fields of the class, the record holds the objects that the policy
  creates and that nothing else owns: the state of its actors (\<open>actorObjs\<close>, by actor;
  \<open>nextActor\<close> is the next unused one) and the results of the \<^verbatim>\<open>getStats.remote()\<close>
  calls it has issued (\<open>objectStore\<close>, by reference; \<open>nextRef\<close> is the next unused one).
  An actor runs its calls in the order of submission, so the result of a
  \<^verbatim>\<open>getStats.remote()\<close> is the statistics of the calls submitted before it: the model
  runs the call when it is submitted.
\<close>

record ('c, 'm, 'p) PolicyBalance =
  pendingActorStats :: "objectRef list"
  actors :: "actor list"
  sList :: statusList
  actorObjs :: "actor \<Rightarrow> ('c, 'm, 'p) runActor"
  nextActor :: nat
  objectStore :: "objectRef \<Rightarrow> ('c \<rightharpoonup> 'p)"
  nextRef :: nat

definition PolicyBalance_init :: "nat \<Rightarrow> ('c, 'm, 'p) PolicyBalance" where
  "PolicyBalance_init nRunner =
     \<lparr>pendingActorStats = [],
      actors = [0..<nRunner],
      sList = statusList_init\<lparr>statuses := [0..<nRunner], nextStatus := nRunner\<rparr>,
      actorObjs = (\<lambda>_. runActor_init),
      nextActor = nRunner,
      objectStore = (\<lambda>_. Map.empty),
      nextRef = 0\<rparr>"

definition PolicyBalance_scaleUp :: "('c, 'm, 'p) PolicyBalance \<Rightarrow> ('c, 'm, 'p) PolicyBalance" where
  "PolicyBalance_scaleUp p =
     (let (status, sl) = newStatus (sList p);
          newActor = nextActor p
      in p\<lparr>sList := sl\<lparr>statuses := statuses sl @ [status]\<rparr>,
           actorObjs := (actorObjs p)(newActor := runActor_init),
           nextActor := Suc newActor,
           actors := actors p @ [newActor]\<rparr>)"

text \<open>
  \<^verbatim>\<open>toKill.getStats.remote()\<close>: the call runs on the actor and its result is stored
  under a new reference.
\<close>

definition remoteGetStats ::
  "('c, 'm, 'p) PolicyBalance \<Rightarrow> actor \<Rightarrow> objectRef \<times> ('c, 'm, 'p) PolicyBalance" where
  "remoteGetStats p a =
     (let (res, a') = runActor_getStats (actorObjs p a);
          r = nextRef p
      in (r, p\<lparr>actorObjs := (actorObjs p)(a := a'),
                objectStore := (objectStore p)(r := res),
                nextRef := Suc r\<rparr>))"

text \<open>\<^verbatim>\<open>list.pop()\<close> raises on an empty list.\<close>

definition PolicyBalance_scaleDown ::
  "('c, 'm, 'p) PolicyBalance \<Rightarrow> unit outcome \<times> ('c, 'm, 'p) PolicyBalance" where
  "PolicyBalance_scaleDown p =
     (if statuses (sList p) = [] then (Raised IndexError, p)
      else let p1 = p\<lparr>sList := (sList p)\<lparr>statuses := butlast (statuses (sList p))\<rparr>\<rparr>
           in if actors p1 = [] then (Raised IndexError, p1)
              else let toKill = List.last (actors p1);
                       p2 = p1\<lparr>actors := butlast (actors p1)\<rparr>;
                       (r, p3) = remoteGetStats p2 toKill;
                       p4 = p3\<lparr>pendingActorStats := pendingActorStats p3 @ [r]\<rparr>
                   in (Returned (),
                       p4\<lparr>actorObjs := (actorObjs p4)
                            (toKill := runActor_terminate (actorObjs p4 toKill))\<rparr>))"

text \<open>
  \<^verbatim>\<open>getRunner(clientID, timeout=...)\<close>; \<open>None\<close> is the pair \<^verbatim>\<open>(None, None)\<close>, and the
  handle is the address of the status.
\<close>

definition PolicyBalance_getRunner ::
  "('c, 'm, 'p) PolicyBalance \<Rightarrow> 'c \<Rightarrow> 't option \<Rightarrow> objectRef list list
    \<Rightarrow> (actor \<times> nat) option outcome \<times> ('c, 'm, 'p) PolicyBalance" where
  "PolicyBalance_getRunner p clientID timeout waits =
     (case pickActorBalanced (sList p) timeout waits of
        (Returned None, sl) \<Rightarrow> (Returned None, p\<lparr>sList := sl\<rparr>)
      | (Returned (Some idx), sl) \<Rightarrow>
          if idx < length (actors p) \<and> idx < length (statuses sl)
          then (Returned (Some (actors p ! idx, statuses sl ! idx)), p\<lparr>sList := sl\<rparr>)
          else (Raised IndexError, p\<lparr>sList := sl\<rparr>)
      | (Raised e, sl) \<Rightarrow> (Raised e, p\<lparr>sList := sl\<rparr>)
      | (BlockedOnReservedCv, sl) \<Rightarrow> (BlockedOnReservedCv, p\<lparr>sList := sl\<rparr>)
      | (BlockedOnRayWait, sl) \<Rightarrow> (BlockedOnRayWait, p\<lparr>sList := sl\<rparr>)
      | (Looping, sl) \<Rightarrow> (Looping, p\<lparr>sList := sl\<rparr>))"

text \<open>
  What a \<^verbatim>\<open>.remote()\<close> call gives the caller: one reference, or a list of them.
\<close>

datatype futures = Future objectRef | Futures "objectRef list"

definition PolicyBalance_update ::
  "('c, 'm, 'p) PolicyBalance \<Rightarrow> 'c \<Rightarrow> nat \<Rightarrow> futures
    \<Rightarrow> unit outcome \<times> ('c, 'm, 'p) PolicyBalance" where
  "PolicyBalance_update p clientID handle respFutures =
     (case respFutures of
        Futures [] \<Rightarrow> (Raised IndexError, p)
      | Futures (r # rs) \<Rightarrow>
          (Returned (), p\<lparr>sList := updateState (setRef (sList p) handle (Some r)) handle BUSY\<rparr>)
      | Future r \<Rightarrow>
          (Returned (), p\<lparr>sList := updateState (setRef (sList p) handle (Some r)) handle BUSY\<rparr>))"

text \<open>
  \<^verbatim>\<open>getStats\<close>: the loop over the actors, then \<^verbatim>\<open>ray.get\<close> of the pending
  references and the merge of what they hold, in the order of the list.
\<close>

fun collectStats ::
  "('c, 'm, 'p) PolicyBalance \<Rightarrow> actor list \<Rightarrow> ('c, 'm, 'p) PolicyBalance" where
  "collectStats p [] = p"
| "collectStats p (a # as) =
     (let (r, p') = remoteGetStats p a
      in collectStats (p'\<lparr>pendingActorStats := pendingActorStats p' @ [r]\<rparr>) as)"

definition mergeAll ::
  "('p \<Rightarrow> 'p \<Rightarrow> 'p) \<Rightarrow> ('c \<rightharpoonup> 'p) list \<Rightarrow> ('c \<rightharpoonup> 'p)" where
  "mergeAll merge actorStats = foldl (mergePerClientStats merge) Map.empty actorStats"

definition PolicyBalance_getStats ::
  "('p \<Rightarrow> 'p \<Rightarrow> 'p) \<Rightarrow> ('c, 'm, 'p) PolicyBalance
    \<Rightarrow> ('c \<rightharpoonup> 'p) \<times> ('c, 'm, 'p) PolicyBalance" where
  "PolicyBalance_getStats merge p =
     (let p' = collectStats p (actors p);
          actorStats = map (objectStore p') (pendingActorStats p')
      in (mergeAll merge actorStats, p'\<lparr>pendingActorStats := []\<rparr>))"

section \<open>PolicyExclusive\<close>

text \<open>
  \<^verbatim>\<open>clientPools\<close> is a dictionary, read in insertion order by the two loops of
  \<^verbatim>\<open>_makeRoom\<close>: an association list, looked up with \<open>map_of\<close> and written with
  \<open>AList.update\<close>, which replaces the value of a key in place and appends a new key.
  \<^verbatim>\<open>nRunner\<close> is a number of runners (\<^verbatim>\<open>util.getNGpu()\<close>), a natural number.
\<close>

record ('c, 'm, 'p) PolicyExclusive =
  maxRunners :: nat
  nRunners :: nat
  clientPools :: "('c \<times> ('c, 'm, 'p) PolicyBalance) list"

definition PolicyExclusive_init :: "nat \<Rightarrow> ('c, 'm, 'p) PolicyExclusive" where
  "PolicyExclusive_init nRunner = \<lparr>maxRunners = nRunner, nRunners = 0, clientPools = []\<rparr>"

definition setPool ::
  "('c, 'm, 'p) PolicyExclusive \<Rightarrow> 'c \<Rightarrow> ('c, 'm, 'p) PolicyBalance \<Rightarrow> ('c, 'm, 'p) PolicyExclusive" where
  "setPool pe cID pool = pe\<lparr>clientPools := AList.update cID pool (clientPools pe)\<rparr>"

text \<open>The two loops over \<^verbatim>\<open>self.clientPools.items()\<close>.\<close>

definition maxLength :: "('c \<times> ('c, 'm, 'p) PolicyBalance) list \<Rightarrow> nat" where
  "maxLength pools =
     foldl (\<lambda>maxLength (cID, pool).
              if length (actors pool) > maxLength then length (actors pool) else maxLength)
       0 pools"

definition candidates :: "('c \<times> ('c, 'm, 'p) PolicyBalance) list \<Rightarrow> 'c list" where
  "candidates pools =
     map fst (filter (\<lambda>(cID, pool). length (actors pool) = maxLength pools) pools)"

text \<open>
  \<^verbatim>\<open>lot = random.randrange(0, len(candidates))\<close> is some number below
  \<^verbatim>\<open>len(candidates)\<close>, and raises on an empty list. The model takes a natural number
  \<open>rnd\<close> from the caller and reduces it modulo the length: every number below the length
  can be drawn, and no other.
\<close>

definition randrange :: "nat \<Rightarrow> nat \<Rightarrow> pyError + nat" where
  "randrange rnd n = (if n = 0 then Inl ValueError else Inr (rnd mod n))"

text \<open>
  \<^verbatim>\<open>_makeRoom(clientID)\<close>. The last argument holds, for every iteration of the
  \<^verbatim>\<open>while True\<close> loop, what the calls of \<^verbatim>\<open>ray.wait\<close> return in the \<^verbatim>\<open>getRunner\<close> of
  that iteration. The pools are read from \<open>clientPools\<close> at each use, as the source
  reads the objects that its variables point to. An exception of \<^verbatim>\<open>scaleDown\<close> ends
  the call.
\<close>

fun makeRoom ::
  "('c, 'm, 'p) PolicyExclusive \<Rightarrow> 'c \<Rightarrow> nat \<Rightarrow> objectRef list list list
    \<Rightarrow> (actor \<times> nat) option outcome \<times> ('c, 'm, 'p) PolicyExclusive" where
  "makeRoom pe clientID rnd [] = (Looping, pe)"
| "makeRoom pe clientID rnd (waits # later) =
     (case map_of (clientPools pe) clientID of
        None \<Rightarrow> (Raised KeyError, pe)
      | Some clientPool \<Rightarrow>
          let clientLength = length (actors clientPool) in
          if nRunners pe < maxRunners pe
          then let pe1 = (setPool pe clientID (PolicyBalance_scaleUp clientPool))
                           \<lparr>nRunners := nRunners pe + 1\<rparr>;
                   (res, pool') =
                     PolicyBalance_getRunner (PolicyBalance_scaleUp clientPool) clientID
                       (None :: nat option) waits
               in (res, setPool pe1 clientID pool')
          else if clientLength < maxLength (clientPools pe)
          then (case randrange rnd (length (candidates (clientPools pe))) of
                  Inl e \<Rightarrow> (Raised e, pe)
                | Inr lot \<Rightarrow>
                    let candidate = candidates (clientPools pe) ! lot in
                    (case map_of (clientPools pe) candidate of
                       None \<Rightarrow> (Raised KeyError, pe)
                     | Some victimPool \<Rightarrow>
                         (case PolicyBalance_scaleDown victimPool of
                            (Returned u, victimPool') \<Rightarrow>
                              let pe1 = setPool pe candidate victimPool' in
                              (case map_of (clientPools pe1) clientID of
                                 None \<Rightarrow> (Raised KeyError, pe1)
                               | Some clientPool1 \<Rightarrow>
                                   let pe2 = setPool pe1 clientID (PolicyBalance_scaleUp clientPool1);
                                       (res, pool') =
                                         PolicyBalance_getRunner (PolicyBalance_scaleUp clientPool1)
                                           clientID (None :: nat option) waits
                                   in (res, setPool pe2 clientID pool'))
                          | (other, victimPool') \<Rightarrow>
                              (map_outcome (\<lambda>u. None) other, setPool pe candidate victimPool'))))
          else let (res, pool') =
                     PolicyBalance_getRunner clientPool clientID (None :: nat option) waits;
                   pe1 = setPool pe clientID pool'
               in (case res of
                     Returned None \<Rightarrow> makeRoom pe1 clientID rnd later
                   | other \<Rightarrow> (other, pe1)))"

text \<open>
  \<^verbatim>\<open>getRunner(clientID)\<close>: \<open>waits\<close> is for the \<^verbatim>\<open>getRunner\<close> of the client's pool with
  the timeout of 0.01 s (10 ms here), \<open>later\<close> for \<^verbatim>\<open>_makeRoom\<close>.
\<close>

definition PolicyExclusive_getRunner ::
  "('c, 'm, 'p) PolicyExclusive \<Rightarrow> 'c \<Rightarrow> nat \<Rightarrow> objectRef list list \<Rightarrow> objectRef list list list
    \<Rightarrow> (actor \<times> nat) outcome \<times> ('c, 'm, 'p) PolicyExclusive" where
  "PolicyExclusive_getRunner pe clientID rnd waits later =
     (let (clientPool, pe1) =
            (case map_of (clientPools pe) clientID of
               Some clientPool \<Rightarrow> (clientPool, pe)
             | None \<Rightarrow> (PolicyBalance_init 0, setPool pe clientID (PolicyBalance_init 0)));
          (res, pool') = PolicyBalance_getRunner clientPool clientID (Some (10 :: nat)) waits;
          pe2 = setPool pe1 clientID pool'
      in (case res of
            Returned (Some runner) \<Rightarrow> (Returned runner, pe2)
          | Returned None \<Rightarrow>
              (case makeRoom pe2 clientID rnd later of
                 (Returned None, pe3) \<Rightarrow> (Raised RuntimeError, pe3)
               | (Returned (Some runner), pe3) \<Rightarrow> (Returned runner, pe3)
               | (Raised e, pe3) \<Rightarrow> (Raised e, pe3)
               | (BlockedOnReservedCv, pe3) \<Rightarrow> (BlockedOnReservedCv, pe3)
               | (BlockedOnRayWait, pe3) \<Rightarrow> (BlockedOnRayWait, pe3)
               | (Looping, pe3) \<Rightarrow> (Looping, pe3))
          | Raised e \<Rightarrow> (Raised e, pe2)
          | BlockedOnReservedCv \<Rightarrow> (BlockedOnReservedCv, pe2)
          | BlockedOnRayWait \<Rightarrow> (BlockedOnRayWait, pe2)
          | Looping \<Rightarrow> (Looping, pe2)))"

definition PolicyExclusive_update ::
  "('c, 'm, 'p) PolicyExclusive \<Rightarrow> 'c \<Rightarrow> nat \<Rightarrow> futures
    \<Rightarrow> unit outcome \<times> ('c, 'm, 'p) PolicyExclusive" where
  "PolicyExclusive_update pe clientID handle respFutures =
     (case map_of (clientPools pe) clientID of
        None \<Rightarrow> (Raised KeyError, pe)
      | Some pool \<Rightarrow>
          let (res, pool') = PolicyBalance_update pool clientID handle respFutures
          in (res, setPool pe clientID pool'))"

text \<open>\<^verbatim>\<open>getStats\<close>: the loop over \<^verbatim>\<open>self.clientPools.values()\<close>.\<close>

fun poolsStats ::
  "('p \<Rightarrow> 'p \<Rightarrow> 'p) \<Rightarrow> ('c \<times> ('c, 'm, 'p) PolicyBalance) list \<Rightarrow> ('c \<rightharpoonup> 'p)
    \<Rightarrow> ('c \<rightharpoonup> 'p) \<times> ('c \<times> ('c, 'm, 'p) PolicyBalance) list" where
  "poolsStats merge [] merged = (merged, [])"
| "poolsStats merge ((cID, pool) # rest) merged =
     (let (poolStats, pool') = PolicyBalance_getStats merge pool;
          (merged', rest') = poolsStats merge rest (mergePerClientStats merge merged poolStats)
      in (merged', (cID, pool') # rest'))"

definition PolicyExclusive_getStats ::
  "('p \<Rightarrow> 'p \<Rightarrow> 'p) \<Rightarrow> ('c, 'm, 'p) PolicyExclusive
    \<Rightarrow> ('c \<rightharpoonup> 'p) \<times> ('c, 'm, 'p) PolicyExclusive" where
  "PolicyExclusive_getStats merge pe =
     (let (merged, pools') = poolsStats merge (clientPools pe) Map.empty
      in (merged, pe\<lparr>clientPools := pools'\<rparr>))"

section \<open>runnerPool\<close>

text \<open>
  The policy object of a \<^verbatim>\<open>runnerPool\<close> is of one of three classes.
  \<^verbatim>\<open>runnerPool.getStats\<close> calls \<^verbatim>\<open>self.policy.getStats()\<close>; the classes
  \<^verbatim>\<open>PolicyBalance\<close> and \<^verbatim>\<open>PolicyExclusive\<close> define the method, \<^verbatim>\<open>PolicyRR\<close> and its
  base class \<^verbatim>\<open>Policy\<close> define \<^verbatim>\<open>__init__\<close>, \<^verbatim>\<open>getRunner\<close> and \<^verbatim>\<open>update\<close> only.
\<close>

datatype ('c, 'm, 'p) policy =
    RR PolicyRR
  | Exclusive "('c, 'm, 'p) PolicyExclusive"
  | Balance "('c, 'm, 'p) PolicyBalance"

text \<open>
  The choice of the policy in \<^verbatim>\<open>runnerPool.__init__\<close>, for a mode other than
  \<^verbatim>\<open>'task'\<close>, from \<^verbatim>\<open>benchConfig['runner_policy']\<close>.
\<close>

definition newPolicy :: "nat \<Rightarrow> string \<Rightarrow> pyError + ('c, 'm, 'p) policy" where
  "newPolicy nRunner runner_policy =
     (if runner_policy = ''rr'' then Inr (RR (PolicyRR_init nRunner))
      else if runner_policy = ''exclusive'' then Inr (Exclusive (PolicyExclusive_init nRunner))
      else if runner_policy = ''balance'' then Inr (Balance (PolicyBalance_init nRunner))
      else Inl ValueError)"

definition policy_getStats ::
  "('p \<Rightarrow> 'p \<Rightarrow> 'p) \<Rightarrow> ('c, 'm, 'p) policy \<Rightarrow> (pyError + ('c \<rightharpoonup> 'p)) \<times> ('c, 'm, 'p) policy" where
  "policy_getStats merge pol =
     (case pol of
        RR p \<Rightarrow> (Inl AttributeError, RR p)
      | Exclusive pe \<Rightarrow>
          (let (merged, pe') = PolicyExclusive_getStats merge pe in (Inr merged, Exclusive pe'))
      | Balance p \<Rightarrow>
          (let (merged, p') = PolicyBalance_getStats merge p in (Inr merged, Balance p')))"

section \<open>Running a model on an actor\<close>

text \<open>
  The model classes and \<^verbatim>\<open>infbench\<close> are not part of the sources at hand. What
  \<^verbatim>\<open>runNative\<close> uses of them is a parameter: \<open>newProf\<close> is
  \<^verbatim>\<open>infbench.profCollection()\<close>, \<open>modelClass spec arg\<close> is
  \<^verbatim>\<open>modelSpec.modelClass(modelArg)\<close>, \<open>runMapConst model\<close> is the length of
  \<^verbatim>\<open>model.runMap.const\<close> (\<open>None\<close> when that is \<^verbatim>\<open>None\<close>), and \<open>timedRun\<close> is
  \<^verbatim>\<open>model.run(inputs, stats=stats)\<close> inside \<^verbatim>\<open>infbench.timer('t_model_run', stats)\<close>:
  the results and the statistics afterwards.
\<close>

record ('spec, 'arg, 'm, 'v, 'p) externals =
  newProf :: 'p
  modelClass :: "'spec \<Rightarrow> 'arg \<Rightarrow> 'm"
  runMapConst :: "'m \<Rightarrow> nat option"
  timedRun :: "'m \<Rightarrow> 'v list \<Rightarrow> 'p \<Rightarrow> 'v list \<times> 'p"

definition unMarshalArgs :: "nat option \<Rightarrow> 'v list \<Rightarrow> 'v list \<times> 'v list" where
  "unMarshalArgs const args =
     (case const of
        None \<Rightarrow> ([], args)
      | Some nConst \<Rightarrow> (take nConst args, drop nConst args))"

text \<open>
  A function that returns \<^verbatim>\<open>results[0]\<close> for one result and \<^verbatim>\<open>results\<close> otherwise.
\<close>

datatype 'v returned = Scalar 'v | Tuple "'v list"

definition scalarOrTuple :: "'v list \<Rightarrow> 'v returned" where
  "scalarOrTuple results = (case results of [r] \<Rightarrow> Scalar r | _ \<Rightarrow> Tuple results)"

text \<open>
  \<^verbatim>\<open>_run(model, inputs, completionQ, queryId, stats)\<close>. The completion queue, when
  there is one, is the list of the messages put on it.
\<close>

definition runModel ::
  "('spec, 'arg, 'm, 'v, 'p) externals \<Rightarrow> 'm \<Rightarrow> 'v list \<Rightarrow> ('v list \<times> 'q) list option \<Rightarrow> 'q \<Rightarrow> 'p
    \<Rightarrow> 'v returned \<times> ('v list \<times> 'q) list option \<times> 'p" where
  "runModel ext model inputs completionQ queryId prof =
     (let (constants, data) = unMarshalArgs (runMapConst ext model) inputs;
          (results, prof') = timedRun ext model (constants @ data) prof;
          completionQ' = (case completionQ of
                            None \<Rightarrow> None
                          | Some q \<Rightarrow> Some (q @ [(results, queryId)]))
      in (scalarOrTuple results, completionQ', prof'))"

text \<open>\<^verbatim>\<open>runActor.runNative\<close>.\<close>

definition runNative ::
  "('spec, 'arg, 'm, 'v, 'p) externals \<Rightarrow> ('c, 'm, 'p) runActor \<Rightarrow> 'spec \<Rightarrow> 'arg \<Rightarrow> 'v list
    \<Rightarrow> ('v list \<times> 'q) list option \<Rightarrow> 'q \<Rightarrow> bool \<Rightarrow> 'c
    \<Rightarrow> 'v returned \<times> ('v list \<times> 'q) list option \<times> ('c, 'm, 'p) runActor" where
  "runNative ext self modelSpec modelArg inputs completionQ queryId cacheModel clientID =
     (let self1 = (if clientID \<notin> dom (stats self)
                   then self\<lparr>stats := (stats self)(clientID \<mapsto> newProf ext)\<rparr>
                   else self);
          (model, self2) =
            (case modelCache self1 clientID of
               Some model \<Rightarrow> (model, self1)
             | None \<Rightarrow>
                 (modelClass ext modelSpec modelArg,
                  self1\<lparr>modelCache :=
                           (modelCache self1)(clientID \<mapsto> modelClass ext modelSpec modelArg)\<rparr>));
          prof = (case stats self2 clientID of Some prof \<Rightarrow> prof | None \<Rightarrow> newProf ext);
          (result, completionQ', prof') = runModel ext model inputs completionQ queryId prof
      in (result, completionQ', self2\<lparr>stats := (stats self2)(clientID \<mapsto> prof')\<rparr>))"

section \<open>The pipeline dispatcher\<close>

text \<open>
  What a model class declares about the number of outputs of its stages.
\<close>

record stageCounts =
  nOutPre :: nat
  nOutRun :: nat
  nOutPost :: nat
  noPost :: bool

text \<open>
  \<^verbatim>\<open>f.options(num_returns=n).remote(...)\<close> gives the caller \<open>n\<close> new references: the
  reference itself for \<open>n = 1\<close>, a list of them for more, and \<^verbatim>\<open>None\<close> for none. The
  second component is the next unused reference.
\<close>

datatype refs = NoRefs | OneRef objectRef | RefList "objectRef list"

definition remote :: "nat \<Rightarrow> objectRef \<Rightarrow> refs \<times> objectRef" where
  "remote num_returns next =
     (if num_returns = 1 then OneRef next
      else if num_returns > 1 then RefList [next..<next + num_returns]
      else NoRefs,
      next + num_returns)"

text \<open>\<^verbatim>\<open>if n == 1: out = [out]\<close>\<close>

definition wrapOne :: "nat \<Rightarrow> refs \<Rightarrow> refs" where
  "wrapOne n out =
     (if n = 1 then (case out of OneRef r \<Rightarrow> RefList [r] | other \<Rightarrow> other) else out)"

text \<open>The number of references in what \<^verbatim>\<open>_runOne\<close> returns.\<close>

definition nRefs :: "refs \<Rightarrow> nat" where
  "nRefs out = (case out of NoRefs \<Rightarrow> 0 | OneRef r \<Rightarrow> 1 | RefList rs \<Rightarrow> length rs)"

text \<open>
  \<^verbatim>\<open>_runOne\<close>, as far as the references it returns go: these are made by the
  \<^verbatim>\<open>.remote()\<close> calls and depend on the \<^verbatim>\<open>num_returns\<close> options only, not on the
  arguments of the calls, which are left out. \<open>completionQ\<close> and \<open>runPool\<close> say whether
  the arguments of these names are given (not \<^verbatim>\<open>None\<close>).
\<close>

definition runOne ::
  "string \<Rightarrow> stageCounts \<Rightarrow> bool \<Rightarrow> bool \<Rightarrow> bool \<Rightarrow> objectRef \<Rightarrow> pyError + (refs \<times> objectRef)" where
  "runOne modelType mClass inline completionQ runPool next =
     (if inline
      then (if modelType = ''kaas'' then Inl AssertionError
            else if runPool then Inl AssertionError
            else if completionQ
            then (let (unused, next1) = remote (nOutPost mClass) next in Inr (NoRefs, next1))
            else Inr (remote (nOutPost mClass) next))
      else let (preOut, next1) = remote (nOutPre mClass) next;
               preOut = wrapOne (nOutPre mClass) preOut
           in if \<not> runPool then Inl AttributeError
              else let (runOut, next2) = remote (nOutRun mClass) next1;
                       runOut = wrapOne (nOutRun mClass) runOut
                   in if noPost mClass then Inr (runOut, next2)
                      else let (postOut, next3) = remote (nOutPost mClass) next2
                           in Inr (wrapOne (nOutPost mClass) postOut, next3))"

section \<open>What the claims count\<close>

text \<open>The number of statuses of the list that are in a given state.\<close>

definition countState :: "statusList \<Rightarrow> actorState \<Rightarrow> nat" where
  "countState sl st = length (filter (\<lambda>s. state (heap sl s) = st) (statuses sl))"

text \<open>
  The invariant of the status list: \<^verbatim>\<open>nReserved\<close> is the number of RESERVED statuses
  (and so at most the number of statuses), and every status is in one of the three
  states.
\<close>

definition statusListInvariant :: "statusList \<Rightarrow> bool" where
  "statusListInvariant sl \<longleftrightarrow>
     nReserved sl = int (countState sl RESERVED) \<and>
     countState sl IDLE + countState sl RESERVED + countState sl BUSY = length (statuses sl) \<and>
     nReserved sl \<le> int (length (statuses sl))"

text \<open>
  For the pools of a \<^verbatim>\<open>PolicyExclusive\<close>: the size of a tenant's pool (0 for a tenant
  without one), the sum of the sizes of all pools, and the tenants whose pool is of
  maximal size.
\<close>

definition poolLength :: "('c \<times> ('c, 'm, 'p) PolicyBalance) list \<Rightarrow> 'c \<Rightarrow> nat" where
  "poolLength pools c = (case map_of pools c of None \<Rightarrow> 0 | Some pool \<Rightarrow> length (actors pool))"

definition totalRunners :: "('c \<times> ('c, 'm, 'p) PolicyBalance) list \<Rightarrow> nat" where
  "totalRunners pools = sum_list (map (\<lambda>(c, pool). length (actors pool)) pools)"

definition largestPools :: "('c \<times> ('c, 'm, 'p) PolicyBalance) list \<Rightarrow> 'c set" where
  "largestPools pools =
     {c \<in> fst ` set pools. \<forall>c' \<in> fst ` set pools. poolLength pools c' \<le> poolLength pools c}"

text \<open>
  The operations of a \<^verbatim>\<open>PolicyExclusive\<close>, with their arguments, and the state after a
  sequence of them; the state after a call that raises or does not return is the state
  that the call has reached.
\<close>

datatype 'c exclusiveOp =
    GetRunner 'c nat "objectRef list list" "objectRef list list list"
  | Update 'c nat futures
  | GetStats

fun runOp ::
  "('p \<Rightarrow> 'p \<Rightarrow> 'p) \<Rightarrow> ('c, 'm, 'p) PolicyExclusive \<Rightarrow> 'c exclusiveOp
    \<Rightarrow> ('c, 'm, 'p) PolicyExclusive" where
  "runOp merge pe (GetRunner clientID rnd waits later) =
     snd (PolicyExclusive_getRunner pe clientID rnd waits later)"
| "runOp merge pe (Update clientID handle respFutures) =
     snd (PolicyExclusive_update pe clientID handle respFutures)"
| "runOp merge pe GetStats = snd (PolicyExclusive_getStats merge pe)"

definition runOps ::
  "('p \<Rightarrow> 'p \<Rightarrow> 'p) \<Rightarrow> 'c exclusiveOp list \<Rightarrow> ('c, 'm, 'p) PolicyExclusive
    \<Rightarrow> ('c, 'm, 'p) PolicyExclusive" where
  "runOps merge ops pe = foldl (runOp merge) pe ops"

text \<open>
  What holds of a \<^verbatim>\<open>PolicyExclusive\<close> in every state that the operations reach: the
  tenants of \<^verbatim>\<open>clientPools\<close> are distinct (it is a dictionary), each pool has as many
  statuses as actors, and \<^verbatim>\<open>nRunners\<close> is the total number of actors and at most
  \<^verbatim>\<open>maxRunners\<close>.
\<close>

definition exclusiveInvariant :: "('c, 'm, 'p) PolicyExclusive \<Rightarrow> bool" where
  "exclusiveInvariant pe \<longleftrightarrow>
     distinct (map fst (clientPools pe)) \<and>
     (\<forall>(c, pool) \<in> set (clientPools pe). length (statuses (sList pool)) = length (actors pool)) \<and>
     totalRunners (clientPools pe) = nRunners pe \<and>
     nRunners pe \<le> maxRunners pe"

text \<open>
  What holds of the status list of a \<^verbatim>\<open>PolicyBalance\<close> as long as \<^verbatim>\<open>scaleDown\<close> does
  not remove a RESERVED status: the statuses of the list are distinct objects made
  earlier, \<^verbatim>\<open>nReserved\<close> is the number of RESERVED ones, and no status outside the list
  is RESERVED.
\<close>

definition statusListWf :: "statusList \<Rightarrow> bool" where
  "statusListWf sl \<longleftrightarrow>
     distinct (statuses sl) \<and>
     (\<forall>s \<in> set (statuses sl). s < nextStatus sl) \<and>
     nReserved sl = int (countState sl RESERVED) \<and>
     (\<forall>s. s \<notin> set (statuses sl) \<longrightarrow> state (heap sl s) \<noteq> RESERVED)"

text \<open>
  What holds of the actors and the pending references of a \<^verbatim>\<open>PolicyBalance\<close> in every
  state: the actors are distinct and were made earlier, and the pending references were
  issued earlier.
\<close>

definition actorsWf :: "('c, 'm, 'p) PolicyBalance \<Rightarrow> bool" where
  "actorsWf p \<longleftrightarrow>
     distinct (actors p) \<and>
     (\<forall>a \<in> set (actors p). a < nextActor p) \<and>
     (\<forall>r \<in> set (pendingActorStats p). r < nextRef p)"

text \<open>The operations of a \<^verbatim>\<open>PolicyBalance\<close>, with their arguments, and the state after one.\<close>

datatype 'c balanceOp =
    BGetRunner 'c "nat option" "objectRef list list"
  | BUpdate 'c nat futures
  | BScaleUp
  | BScaleDown
  | BGetStats

fun runBalanceOp ::
  "('p \<Rightarrow> 'p \<Rightarrow> 'p) \<Rightarrow> ('c, 'm, 'p) PolicyBalance \<Rightarrow> 'c balanceOp
    \<Rightarrow> ('c, 'm, 'p) PolicyBalance" where
  "runBalanceOp merge p (BGetRunner clientID timeout waits) =
     snd (PolicyBalance_getRunner p clientID timeout waits)"
| "runBalanceOp merge p (BUpdate clientID handle respFutures) =
     snd (PolicyBalance_update p clientID handle respFutures)"
| "runBalanceOp merge p BScaleUp = PolicyBalance_scaleUp p"
| "runBalanceOp merge p BScaleDown = snd (PolicyBalance_scaleDown p)"
| "runBalanceOp merge p BGetStats = snd (PolicyBalance_getStats merge p)"

chapter \<open>Properties\<close>

section \<open>The completion handler\<close>

lemma handleCompletionLoop_results_below:
  "int (length rs) + nc < t \<Longrightarrow>
   handleCompletionLoop nc (Some t) True acked (map (\<lambda>(r, q). (Results r, q)) rs)
     = (BlockedOnGet, acked @ map snd rs, [])"
proof (induction rs arbitrary: nc acked)
  case Nil
  then show ?case by simp
next
  case (Cons x rs)
  obtain r q where x: "x = (r, q)" by (cases x)
  from Cons.prems have "int (length rs) + (nc + 1) < t" by simp
  from Cons.IH [OF this] Cons.prems x show ?case by simp
qed

lemma handleCompletionLoop_results_reach:
  "int (length rs) + nc = t \<Longrightarrow>
   handleCompletionLoop nc (Some t) True acked (map (\<lambda>(r, q). (Results r, q)) rs @ rest)
     = (Exited, acked @ map snd rs, rest)"
proof (induction rs arbitrary: nc acked)
  case Nil
  then show ?case by (cases rest) auto
next
  case (Cons x rs)
  obtain r q where x: "x = (r, q)" by (cases x)
  from Cons.prems have "int (length rs) + (nc + 1) = t" by simp
  from Cons.IH [OF this] Cons.prems x show ?case by simp
qed

lemma handleCompletionLoop_before_sentinel:
  "handleCompletionLoop nc None False acked (map (\<lambda>(r, q). (Results r, q)) rs @ rest)
     = handleCompletionLoop (nc + int (length rs)) None False (acked @ map snd rs) rest"
proof (induction rs arbitrary: nc acked)
  case Nil
  then show ?case by simp
next
  case (Cons x rs)
  obtain r q where x: "x = (r, q)" by (cases x)
  show ?case using Cons.IH [of "nc + 1" "acked @ [q]"] x by (simp add: add.assoc)
qed

text \<open>
  C7. Let the queue hold the results \<open>rs1\<close>, then the integer \<open>t\<close>, then the results
  \<open>rs2\<close>. If \<open>rs1\<close> and \<open>rs2\<close> together are \<open>t\<close> results, the handler acknowledges exactly
  these, in order, and exits, and whatever follows in the queue (\<open>rest\<close>) is not
  consumed; this holds for \<open>rs2\<close> empty (the integer arrives after the last result) as
  for \<open>rs2\<close> non-empty (it arrives before). If they are fewer than \<open>t\<close>, the handler has
  acknowledged them all and has not exited: it waits in \<^verbatim>\<open>queue.get()\<close>.
\<close>

theorem handleCompletion_exits_at_target:
  fixes rs1 rs2 :: "('r \<times> 'q) list" and rest :: "('r, 'q) message list"
  shows
    "(int (length rs1) + int (length rs2) = t \<longrightarrow>
        handleCompletion
          (map (\<lambda>(r, q). (Results r, q)) rs1 @ (IntResp t, s) #
           map (\<lambda>(r, q). (Results r, q)) rs2 @ rest)
        = (Exited, map snd rs1 @ map snd rs2, rest)) \<and>
     (int (length rs1) + int (length rs2) < t \<longrightarrow>
        handleCompletion
          (map (\<lambda>(r, q). (Results r, q)) rs1 @ (IntResp t, s) #
           map (\<lambda>(r, q). (Results r, q)) rs2)
        = (BlockedOnGet, map snd rs1 @ map snd rs2, []))"
proof (intro conjI impI)
  assume eq: "int (length rs1) + int (length rs2) = t"
  show "handleCompletion
          (map (\<lambda>(r, q). (Results r, q)) rs1 @ (IntResp t, s) #
           map (\<lambda>(r, q). (Results r, q)) rs2 @ rest)
        = (Exited, map snd rs1 @ map snd rs2, rest)"
  proof (cases "rs2 = []")
    case True
    with eq show ?thesis
      by (simp add: handleCompletion_def handleCompletionLoop_before_sentinel)
  next
    case False
    with eq have ne: "int (length rs1) \<noteq> t" by auto
    from eq have "int (length rs2) + int (length rs1) = t" by simp
    from handleCompletionLoop_results_reach [OF this] ne show ?thesis
      by (simp add: handleCompletion_def handleCompletionLoop_before_sentinel)
  qed
next
  assume lt: "int (length rs1) + int (length rs2) < t"
  then have ne: "int (length rs1) \<noteq> t" by auto
  from lt have "int (length rs2) + int (length rs1) < t" by simp
  from handleCompletionLoop_results_below [OF this] ne show
    "handleCompletion
          (map (\<lambda>(r, q). (Results r, q)) rs1 @ (IntResp t, s) #
           map (\<lambda>(r, q). (Results r, q)) rs2)
        = (BlockedOnGet, map snd rs1 @ map snd rs2, [])"
    by (simp add: handleCompletion_def handleCompletionLoop_before_sentinel)
qed

text \<open>
  The scenario of the specification: three results, the integer 5, two more results and
  a sixth message. All five results are acknowledged and the sixth message stays in the
  queue.
\<close>

theorem handleCompletion_exits_at_target_witness:
  "handleCompletion
     [(Results ''a'', 1::nat), (Results ''b'', 2), (Results ''c'', 3), (IntResp 5, 0),
      (Results ''d'', 4), (Results ''e'', 5), (Results ''f'', 6)]
   = (Exited, [1, 2, 3, 4, 5], [(Results ''f'', 6)])"
  using handleCompletion_exits_at_target
    [of "[(''a'', 1::nat), (''b'', 2), (''c'', 3)]" "[(''d'', 4), (''e'', 5)]" 5 0
        "[(Results ''f'', 6)]"]
  by simp

section \<open>Round robin\<close>

text \<open>
  The claim C2 as stated, that nine calls on a pool of three return the workers in the
  order 0, 1, 2, ..., fails: \<^verbatim>\<open>last\<close> starts at 0 and is advanced before it is read.
\<close>

theorem PolicyRR_order_from_w0_counterexample:
  "map_sum id fst (PolicyRR_getRunners 9 (PolicyRR_init 3)) \<noteq> Inr [0, 1, 2, 0, 1, 2, 0, 1, 2]"
  by code_simp

text \<open>
  C2, amended. Nine successive calls on a PolicyRR of three workers return the workers in
  the cyclic order that starts at worker 1, and each of the workers 0, 1 and 2 exactly
  three times.
\<close>

theorem PolicyRR_nine_calls:
  "map_sum id fst (PolicyRR_getRunners 9 (PolicyRR_init 3)) = Inr [1, 2, 0, 1, 2, 0, 1, 2, 0] \<and>
   map_sum id (\<lambda>(as, p). map (count_list as) [0, 1, 2]) (PolicyRR_getRunners 9 (PolicyRR_init 3))
     = Inr [3, 3, 3]"
  by code_simp

section \<open>The worker actor\<close>

text \<open>
  C10. Two calls of \<^verbatim>\<open>runNative\<close> that differ in \<^verbatim>\<open>cacheModel\<close> only give the same
  result, the same completion queue and the same actor state; and after the call the
  model cache holds a model for \<^verbatim>\<open>clientID\<close>, the one it held before or else the newly
  made one, whatever \<^verbatim>\<open>cacheModel\<close> is.
\<close>

theorem runNative_ignores_cacheModel:
  "runNative ext self modelSpec modelArg inputs completionQ queryId cacheModel clientID
     = runNative ext self modelSpec modelArg inputs completionQ queryId cacheModel' clientID \<and>
   modelCache (snd (snd (runNative ext self modelSpec modelArg inputs completionQ queryId
                           cacheModel clientID))) clientID
     = Some (case modelCache self clientID of
               Some model \<Rightarrow> model
             | None \<Rightarrow> modelClass ext modelSpec modelArg)"
  by (simp add: runNative_def Let_def split: prod.splits option.splits)

section \<open>The pipeline dispatcher\<close>


text \<open>
  Without a runner pool, which no caller in the file does, a staged call fails at
  \<^verbatim>\<open>runPool.run\<close>, and an inline call without a completion queue returns \<^verbatim>\<open>nOutPost\<close>
  references, with \<^verbatim>\<open>noPost\<close> or without.
\<close>

lemma runOne_without_pool:
  "runOne modelType mClass False completionQ False next = Inl AttributeError"
  "runOne modelType mClass True False False next = Inr (out, next') \<Longrightarrow>
   nRefs out = nOutPost mClass"
  by (auto simp add: runOne_def remote_def nRefs_def wrapOne_def Let_def
      split: if_splits prod.splits)

section \<open>The status list\<close>

text \<open>
  C1, at a trace where the code departs from it: a \<^verbatim>\<open>PolicyBalance\<close> of one worker,
  \<^verbatim>\<open>getRunner\<close> (which reserves the worker), then \<^verbatim>\<open>scaleDown\<close>. The status list is
  empty and \<^verbatim>\<open>nReserved\<close> is still 1: it is not the number of RESERVED statuses, and it
  exceeds the number of statuses.
\<close>

theorem scaleDown_keeps_nReserved:
  "(let p1 = snd (PolicyBalance_getRunner
                    (PolicyBalance_init 1 :: (nat, unit, unit) PolicyBalance) 0
                    (None :: nat option) []);
        p2 = snd (PolicyBalance_scaleDown p1)
    in nReserved (sList p2) = 1 \<and> length (statuses (sList p2)) = 0 \<and>
       countState (sList p2) RESERVED = 0 \<and> \<not> statusListInvariant (sList p2))"
  by code_simp

text \<open>
  The same on a pool of two workers, both reserved: after \<^verbatim>\<open>scaleDown\<close> the next
  \<^verbatim>\<open>getRunner\<close> passes the wait on the condition variable, for \<^verbatim>\<open>nReserved\<close> is 2 and
  the list has one status, finds no IDLE and no BUSY status and fails the assertion
  \<^verbatim>\<open>len(outstanding) != 0\<close>.
\<close>

lemma getRunner_after_scaleDown_asserts:
  "(let c = (0::nat); none = (None :: nat option);
        p0 = (PolicyBalance_init 2 :: (nat, unit, unit) PolicyBalance);
        p1 = snd (PolicyBalance_getRunner p0 c none []);
        p2 = snd (PolicyBalance_getRunner p1 c none []);
        p3 = snd (PolicyBalance_scaleDown p2)
    in fst (PolicyBalance_getRunner p3 c none []) = Raised AssertionError)"
  by code_simp

section \<open>The timeout of getRunner\<close>

lemma scanStatuses_no_idle:
  "\<forall>s \<in> set ss. state (h s) \<noteq> IDLE \<Longrightarrow>
   scanStatuses h i ss out =
     Outstanding (out @ map (\<lambda>s. ref (h s)) (filter (\<lambda>s. state (h s) = BUSY) ss))"
  by (induction ss arbitrary: i out) auto

text \<open>
  The claim C3 as stated fails where every status is RESERVED: the call waits on the
  condition variable, whatever the timeout. Here on a pool of one worker that an earlier
  \<^verbatim>\<open>getRunner\<close> has reserved.
\<close>

theorem getRunner_all_reserved_counterexample:
  "fst (PolicyBalance_getRunner
          (snd (PolicyBalance_getRunner
                  (PolicyBalance_init 1 :: (nat, unit, unit) PolicyBalance) 0
                  (None :: nat option) []))
          0 (Some (10 :: nat)) [[]])
   \<noteq> Returned None"
  by code_simp

text \<open>
  C3, amended. Take a call of \<^verbatim>\<open>getRunner\<close> with a timeout, in a state where no status
  is IDLE, and let \<^verbatim>\<open>ray.wait\<close>, if the call gets there, return no ready reference.
  If the pool is empty, the call returns \<^verbatim>\<open>(None, None)\<close> at once. Otherwise, if
  \<^verbatim>\<open>nReserved\<close> is the number of statuses, the call waits on the condition variable,
  which the timeout does not bound. Otherwise, if some status is BUSY, the call gets to
  \<^verbatim>\<open>ray.wait\<close> and returns \<^verbatim>\<open>(None, None)\<close> when the timeout expires. In what remains
  (no status is BUSY, and \<^verbatim>\<open>nReserved\<close> is not the number of statuses) the call fails
  the assertion \<^verbatim>\<open>len(outstanding) != 0\<close>. In every case the policy, and so its status
  list, is left as it was.
\<close>

theorem getRunner_timeout:
  assumes "\<forall>s \<in> set (statuses (sList p)). state (heap (sList p) s) \<noteq> IDLE"
  shows "PolicyBalance_getRunner p clientID (Some t) ([] # waits) =
           (if statuses (sList p) = [] then (Returned None, p)
            else if nReserved (sList p) = int (length (statuses (sList p)))
            then (BlockedOnReservedCv, p)
            else if \<exists>s \<in> set (statuses (sList p)). state (heap (sList p) s) = BUSY
            then (Returned None, p)
            else (Raised AssertionError, p))"
proof -
  have "firstBlock (sList p) =
          (if statuses (sList p) = [] then Ends (Returned None) (sList p)
           else if nReserved (sList p) = int (length (statuses (sList p)))
           then Ends BlockedOnReservedCv (sList p)
           else if \<exists>s \<in> set (statuses (sList p)). state (heap (sList p) s) = BUSY
           then Waits (map (\<lambda>s. ref (heap (sList p) s))
                  (filter (\<lambda>s. state (heap (sList p) s) = BUSY) (statuses (sList p))))
           else Ends (Raised AssertionError) (sList p))"
    by (auto simp add: firstBlock_def scanStatuses_no_idle [OF assms] filter_empty_conv)
  then show ?thesis by (simp add: PolicyBalance_getRunner_def)
qed

text \<open>
  Three pools: an empty one; one of one worker that \<^verbatim>\<open>getRunner\<close> has reserved; and that
  one after \<^verbatim>\<open>update\<close> with the reference 7, where the worker is BUSY.
\<close>

theorem getRunner_timeout_witness:
  "(let p0 = (PolicyBalance_init 0 :: (nat, unit, unit) PolicyBalance);
        p1 = snd (PolicyBalance_getRunner
                    (PolicyBalance_init 1 :: (nat, unit, unit) PolicyBalance) 0
                    (None :: nat option) []);
        p2 = snd (PolicyBalance_update p1 0 0 (Future 7))
    in PolicyBalance_getRunner p0 0 (Some (10 :: nat)) [[]] = (Returned None, p0) \<and>
       state (heap (sList p1) 0) = RESERVED \<and>
       PolicyBalance_getRunner p1 0 (Some (10 :: nat)) [[]] = (BlockedOnReservedCv, p1) \<and>
       state (heap (sList p2) 0) = BUSY \<and>
       PolicyBalance_getRunner p2 0 (Some (10 :: nat)) [[]] = (Returned None, p2))"
proof -
  define p0 where "p0 = (PolicyBalance_init 0 :: (nat, unit, unit) PolicyBalance)"
  define p1 where "p1 = snd (PolicyBalance_getRunner
                    (PolicyBalance_init 1 :: (nat, unit, unit) PolicyBalance) 0
                    (None :: nat option) [])"
  define p2 where "p2 = snd (PolicyBalance_update p1 0 0 (Future 7))"
  have s0: "statuses (sList p0) = []"
    by (simp add: p0_def PolicyBalance_init_def statusList_init_def)
  have s1: "statuses (sList p1) = [0]" "nReserved (sList p1) = 1"
    "state (heap (sList p1) 0) = RESERVED"
    by (simp_all add: p1_def PolicyBalance_getRunner_def PolicyBalance_init_def firstBlock_def
        statusList_init_def actorStatus_init_def updateState_def setState_def)
  have s2: "statuses (sList p2) = [0]" "nReserved (sList p2) = 0"
    "state (heap (sList p2) 0) = BUSY"
    using s1 by (simp_all add: p2_def PolicyBalance_update_def updateState_def setState_def
        setRef_def)
  have h0: "\<forall>s \<in> set (statuses (sList p0)). state (heap (sList p0) s) \<noteq> IDLE" using s0 by simp
  have h1: "\<forall>s \<in> set (statuses (sList p1)). state (heap (sList p1) s) \<noteq> IDLE" using s1 by simp
  have h2: "\<forall>s \<in> set (statuses (sList p2)). state (heap (sList p2) s) \<noteq> IDLE" using s2 by simp
  from getRunner_timeout [OF h0, of 0 10 "[]"] getRunner_timeout [OF h1, of 0 10 "[]"]
    getRunner_timeout [OF h2, of 0 10 "[]"] s0 s1 s2
  show ?thesis
    unfolding Let_def p0_def [symmetric] p1_def [symmetric] p2_def [symmetric] by simp
qed

section \<open>Statistics\<close>

lemma remoteGetStats_simps:
  "fst (remoteGetStats p a) = nextRef p"
  "actors (snd (remoteGetStats p a)) = actors p"
  "sList (snd (remoteGetStats p a)) = sList p"
  "pendingActorStats (snd (remoteGetStats p a)) = pendingActorStats p"
  "nextRef (snd (remoteGetStats p a)) = Suc (nextRef p)"
  "objectStore (snd (remoteGetStats p a)) = (objectStore p)(nextRef p := stats (actorObjs p a))"
  "actorObjs (snd (remoteGetStats p a)) = (actorObjs p)(a := (actorObjs p a)\<lparr>stats := Map.empty\<rparr>)"
  by (simp_all add: remoteGetStats_def runActor_getStats_def Let_def)

lemma collectStats_Cons:
  "collectStats p (a # as) =
     collectStats ((snd (remoteGetStats p a))\<lparr>pendingActorStats := pendingActorStats p @ [nextRef p]\<rparr>) as"
  by (simp add: split_def remoteGetStats_simps)

lemma collectStats_keeps:
  "actors (collectStats p as) = actors p \<and> sList (collectStats p as) = sList p"
  by (induction as arbitrary: p) (simp_all add: collectStats_Cons remoteGetStats_simps del: collectStats.simps(2))

lemma collectStats_resets:
  "a \<in> set as \<or> stats (actorObjs p a) = Map.empty \<Longrightarrow>
   stats (actorObjs (collectStats p as) a) = Map.empty"
proof (induction as arbitrary: p)
  case Nil
  then show ?case by simp
next
  case (Cons b as)
  show ?case
    unfolding collectStats_Cons
    by (rule Cons.IH) (use Cons.prems in \<open>auto simp: remoteGetStats_simps\<close>)
qed

lemma collectStats_all_empty:
  "\<forall>a \<in> set as. stats (actorObjs p a) = Map.empty \<Longrightarrow>
   \<forall>r \<in> set (pendingActorStats p). r < nextRef p \<and> objectStore p r = Map.empty \<Longrightarrow>
   \<forall>r \<in> set (pendingActorStats (collectStats p as)).
      objectStore (collectStats p as) r = Map.empty"
proof (induction as arbitrary: p)
  case Nil
  then show ?case by simp
next
  case (Cons b as)
  show ?case
    unfolding collectStats_Cons
    by (rule Cons.IH) (use Cons.prems in \<open>auto simp: remoteGetStats_simps\<close>)
qed

lemma mergePerClientStats_empty [simp]: "mergePerClientStats merge base Map.empty = base"
  by (simp add: mergePerClientStats_def)

lemma mergeAll_empties: "\<forall>m \<in> set ms. m = Map.empty \<Longrightarrow> mergeAll merge ms = Map.empty"
  unfolding mergeAll_def by (induction ms) simp_all

lemma PolicyBalance_getStats_twice:
  "fst (PolicyBalance_getStats merge (snd (PolicyBalance_getStats merge p))) = Map.empty"
proof -
  define p1 where "p1 = (collectStats p (actors p))\<lparr>pendingActorStats := []\<rparr>"
  have a1: "actors p1 = actors p" by (simp add: p1_def collectStats_keeps)
  have e1: "\<forall>a \<in> set (actors p1). stats (actorObjs p1 a) = Map.empty"
    by (simp add: a1) (simp add: p1_def collectStats_resets)
  have "pendingActorStats p1 = []" by (simp add: p1_def)
  then have "\<forall>r \<in> set (pendingActorStats p1). r < nextRef p1 \<and> objectStore p1 r = Map.empty"
    by simp
  from collectStats_all_empty [OF e1 this]
  have "mergeAll merge (map (objectStore (collectStats p1 (actors p1)))
          (pendingActorStats (collectStats p1 (actors p1)))) = Map.empty"
    by (intro mergeAll_empties) auto
  then show ?thesis by (simp add: PolicyBalance_getStats_def Let_def p1_def)
qed

lemma poolsStats_twice:
  "fst (poolsStats merge (snd (poolsStats merge pools m0)) m) = m"
proof (induction pools arbitrary: m0 m)
  case Nil
  then show ?case by simp
next
  case (Cons cp pools)
  obtain c pool where cp: "cp = (c, pool)" by (cases cp)
  show ?case
    using Cons.IH PolicyBalance_getStats_twice [of merge pool]
    by (simp add: cp split_def Let_def)
qed

text \<open>
  C9, amended. For a \<^verbatim>\<open>PolicyBalance\<close> and for a \<^verbatim>\<open>PolicyExclusive\<close>, in any state, the
  second of two successive \<^verbatim>\<open>getStats()\<close> calls returns the empty map. (\<^verbatim>\<open>PolicyRR\<close>
  has no \<^verbatim>\<open>getStats\<close>.)
\<close>

theorem getStats_twice:
  "fst (policy_getStats merge (snd (policy_getStats merge (Balance p)))) = Inr Map.empty \<and>
   fst (policy_getStats merge (snd (policy_getStats merge (Exclusive pe)))) = Inr Map.empty"
  using PolicyBalance_getStats_twice [of merge p] poolsStats_twice [of merge "clientPools pe" Map.empty Map.empty]
  by (simp add: policy_getStats_def PolicyExclusive_getStats_def split_def Let_def)

text \<open>
  The claim C9 as stated, for every policy, fails for \<^verbatim>\<open>PolicyRR\<close>: the class has no
  method \<^verbatim>\<open>getStats\<close>, and the call that \<^verbatim>\<open>runnerPool.getStats\<close> makes raises instead
  of returning a map, the first time and the second.
\<close>

theorem PolicyRR_getStats_counterexample:
  "fst (policy_getStats max
          (snd (policy_getStats max (RR (PolicyRR_init 3) :: (nat, unit, nat) policy))))
   = Inl AttributeError"
  by (simp add: policy_getStats_def)




section \<open>The pools of PolicyExclusive\<close>

text \<open>
  \<^verbatim>\<open>getRunner\<close> and \<^verbatim>\<open>update\<close> of a \<^verbatim>\<open>PolicyBalance\<close> change neither the list of
  actors nor the list of statuses.
\<close>

lemma updateState_statuses [simp]: "statuses (updateState sl s st) = statuses sl"
  by (simp add: updateState_def setState_def)

lemma setRef_statuses [simp]: "statuses (setRef sl s r) = statuses sl"
  by (simp add: setRef_def)

lemma markReady_statuses:
  "markReady r i ss sl idle = Inr (sl', idle') \<Longrightarrow> statuses sl' = statuses sl"
  "markReady r i ss sl idle = Inl (e, sl') \<Longrightarrow> statuses sl' = statuses sl"
  by (induction ss arbitrary: i sl idle) (auto split: if_splits)

lemma markAllReady_statuses:
  "markAllReady rs sl idle = Inr (sl', idle') \<Longrightarrow> statuses sl' = statuses sl"
  "markAllReady rs sl idle = Inl (e, sl') \<Longrightarrow> statuses sl' = statuses sl"
  by (induction rs arbitrary: sl idle)
    (auto split: sum.splits prod.splits dest: markReady_statuses)

lemma firstBlock_statuses: "firstBlock sl = Ends res sl' \<Longrightarrow> statuses sl' = statuses sl"
  by (auto simp: firstBlock_def split: if_splits scanResult.splits)

lemma pickActorBalanced_statuses:
  "statuses (snd (pickActorBalanced sl timeout waits)) = statuses sl"
proof (induction waits arbitrary: sl)
  case Nil
  then show ?case by (auto split: firstBlock.splits dest: firstBlock_statuses)
next
  case (Cons d waits)
  show ?case
    using Cons.IH
    by (auto split: firstBlock.splits option.splits sum.splits prod.splits
        dest: firstBlock_statuses markAllReady_statuses)
qed

lemma PolicyBalance_getRunner_keeps:
  "actors (snd (PolicyBalance_getRunner p c timeout waits)) = actors p"
  "statuses (sList (snd (PolicyBalance_getRunner p c timeout waits))) = statuses (sList p)"
  using pickActorBalanced_statuses [of "sList p" timeout waits]
  by (auto simp: PolicyBalance_getRunner_def split: prod.splits outcome.splits option.splits)

lemma PolicyBalance_update_keeps:
  "actors (snd (PolicyBalance_update p c h f)) = actors p"
  "statuses (sList (snd (PolicyBalance_update p c h f))) = statuses (sList p)"
  by (auto simp: PolicyBalance_update_def split: futures.splits list.splits)

lemma PolicyBalance_scaleUp_lengths:
  "length (actors (PolicyBalance_scaleUp p)) = Suc (length (actors p))"
  "length (statuses (sList (PolicyBalance_scaleUp p))) = Suc (length (statuses (sList p)))"
  by (simp_all add: PolicyBalance_scaleUp_def newStatus_def Let_def)

text \<open>Writing a pool into \<^verbatim>\<open>clientPools\<close>.\<close>

lemma totalRunners_update_Some:
  "map_of pools c = Some pool \<Longrightarrow>
   totalRunners (AList.update c pool' pools) + length (actors pool)
     = totalRunners pools + length (actors pool')"
  by (induction pools) (auto simp: totalRunners_def)

lemma totalRunners_update_None:
  "map_of pools c = None \<Longrightarrow>
   totalRunners (AList.update c pool' pools) = totalRunners pools + length (actors pool')"
  by (induction pools) (auto simp: totalRunners_def)

lemma set_update_cases:
  "x \<in> set (AList.update c pool' pools) \<Longrightarrow> x = (c, pool') \<or> x \<in> set pools"
  by (induction pools) (auto split: if_splits)

lemma setPool_simps [simp]:
  "map_of (clientPools (setPool pe c pool)) = (map_of (clientPools pe))(c \<mapsto> pool)"
  "nRunners (setPool pe c pool) = nRunners pe"
  "maxRunners (setPool pe c pool) = maxRunners pe"
  by (simp_all add: setPool_def update_conv')

lemma poolLength_setPool [simp]:
  "poolLength (clientPools (setPool pe c pool)) c' =
     (if c' = c then length (actors pool) else poolLength (clientPools pe) c')"
  by (simp add: poolLength_def)

text \<open>Writing a pool that has as many statuses as actors keeps the shape of the pools.\<close>

lemma setPool_shape:
  assumes "distinct (map fst (clientPools pe))"
    and "\<forall>(c, pool) \<in> set (clientPools pe). length (statuses (sList pool)) = length (actors pool)"
    and "length (statuses (sList pool')) = length (actors pool')"
  shows "distinct (map fst (clientPools (setPool pe c pool')))"
    and "\<forall>(c, pool) \<in> set (clientPools (setPool pe c pool')).
           length (statuses (sList pool)) = length (actors pool)"
  using assms by (auto simp: setPool_def distinct_update dest!: set_update_cases)

lemma setPool_same_length:
  assumes "exclusiveInvariant pe" and "map_of (clientPools pe) c = Some pool"
    and "length (actors pool') = length (actors pool)"
    and "length (statuses (sList pool')) = length (actors pool')"
  shows "exclusiveInvariant (setPool pe c pool')"
proof -
  have "totalRunners (clientPools (setPool pe c pool')) = totalRunners (clientPools pe)"
    using totalRunners_update_Some [OF assms(2), of pool'] assms(3) by (simp add: setPool_def)
  with assms(1) setPool_shape [of pe pool' c] assms(4) show ?thesis
    by (simp add: exclusiveInvariant_def)
qed

lemma invariant_pool:
  "exclusiveInvariant pe \<Longrightarrow> map_of (clientPools pe) c = Some pool \<Longrightarrow>
   length (statuses (sList pool)) = length (actors pool)"
  by (auto simp: exclusiveInvariant_def dest!: map_of_SomeD)

text \<open>\<^verbatim>\<open>maxLength\<close> is an upper bound of the pool sizes, and it is a pool size or 0.\<close>

lemma foldl_maxLength:
  fixes pools :: "('c \<times> ('c, 'm, 'p) PolicyBalance) list"
  defines "f \<equiv> (\<lambda>m (cID :: 'c, pool :: ('c, 'm, 'p) PolicyBalance).
                   if length (actors pool) > m then length (actors pool) else m)"
  shows "m \<le> foldl f m pools"
    and "\<forall>(c, pool) \<in> set pools. length (actors pool) \<le> foldl f m pools"
    and "foldl f m pools = m \<or> (\<exists>(c, pool) \<in> set pools. foldl f m pools = length (actors pool))"
proof (induction pools arbitrary: m)
  case Nil
  { case 1 show ?case by simp }
  { case 2 show ?case by simp }
  { case 3 show ?case by simp }
next
  case (Cons x pools)
  obtain c pool where x: "x = (c, pool)" by (cases x)
  { case 1
    have "m \<le> f m x" by (simp add: f_def x)
    also have "\<dots> \<le> foldl f (f m x) pools" by (rule Cons.IH(1))
    finally show ?case by simp }
  { case 2
    have "length (actors pool) \<le> f m x" by (simp add: f_def x)
    also have "\<dots> \<le> foldl f (f m x) pools" by (rule Cons.IH(1))
    finally show ?case using Cons.IH(2) [of "f m x"] by (simp add: x) }
  { case 3
    show ?case using Cons.IH(3) [of "f m x"] by (auto simp: x f_def split: if_splits) }
qed

lemma maxLength_upper: "(c, pool) \<in> set pools \<Longrightarrow> length (actors pool) \<le> maxLength pools"
  using foldl_maxLength(2) [of pools 0] by (auto simp: maxLength_def)

lemma maxLength_attained:
  "0 < maxLength pools \<Longrightarrow> \<exists>(c, pool) \<in> set pools. length (actors pool) = maxLength pools"
  using foldl_maxLength(3) [of 0 pools] by (force simp: maxLength_def)

lemma poolLength_in:
  "distinct (map fst pools) \<Longrightarrow> (c, pool) \<in> set pools \<Longrightarrow> poolLength pools c = length (actors pool)"
  by (simp add: poolLength_def)

lemma candidates_iff:
  "c \<in> set (candidates pools) \<longleftrightarrow>
     (\<exists>pool. (c, pool) \<in> set pools \<and> length (actors pool) = maxLength pools)"
  by (force simp: candidates_def)

lemma candidates_largest:
  assumes "distinct (map fst pools)"
  shows "set (candidates pools) = largestPools pools"
proof (intro set_eqI iffI)
  fix c assume "c \<in> set (candidates pools)"
  then obtain pool where p: "(c, pool) \<in> set pools" "length (actors pool) = maxLength pools"
    by (auto simp: candidates_iff)
  have "poolLength pools c' \<le> poolLength pools c" if "c' \<in> fst ` set pools" for c'
  proof -
    from that obtain pool' where "(c', pool') \<in> set pools" by auto
    then show ?thesis
      using maxLength_upper [of c' pool' pools] p poolLength_in [OF assms] by simp
  qed
  with p(1) show "c \<in> largestPools pools" by (force simp: largestPools_def)
next
  fix c assume "c \<in> largestPools pools"
  then obtain pool where p: "(c, pool) \<in> set pools"
    and mx: "\<forall>c' \<in> fst ` set pools. poolLength pools c' \<le> poolLength pools c"
    by (auto simp: largestPools_def)
  have "length (actors pool) = maxLength pools"
  proof (cases "0 < maxLength pools")
    case True
    from maxLength_attained [OF True] obtain c0 pool0
      where p0: "(c0, pool0) \<in> set pools" "length (actors pool0) = maxLength pools" by auto
    then have "poolLength pools c0 \<le> poolLength pools c" using mx by force
    then have "maxLength pools \<le> length (actors pool)"
      using p0 p poolLength_in [OF assms] by simp
    with maxLength_upper [OF p] show ?thesis by simp
  next
    case False
    with maxLength_upper [OF p] show ?thesis by simp
  qed
  with p show "c \<in> set (candidates pools)" by (auto simp: candidates_iff)
qed

lemma candidates_distinct: "distinct (map fst pools) \<Longrightarrow> distinct (candidates pools)"
  by (simp add: candidates_def distinct_map_filter)

lemma candidates_nonempty: "0 < maxLength pools \<Longrightarrow> candidates pools \<noteq> []"
  using maxLength_attained [of pools] by (auto simp: candidates_def filter_empty_conv)

lemma scaleDown_returns:
  assumes "statuses (sList p) \<noteq> []" and "actors p \<noteq> []"
  shows "fst (PolicyBalance_scaleDown p) = Returned ()"
    and "actors (snd (PolicyBalance_scaleDown p)) = butlast (actors p)"
    and "statuses (sList (snd (PolicyBalance_scaleDown p))) = butlast (statuses (sList p))"
  using assms
  by (simp_all add: PolicyBalance_scaleDown_def Let_def split_def remoteGetStats_simps)

text \<open>
  The step of \<^verbatim>\<open>_makeRoom\<close> that evicts: the victim is a tenant other than the caller,
  its pool is of maximal size and is scaled down, and the caller's pool is scaled up.
\<close>

lemma makeRoom_evicts:
  fixes rnd :: nat
  assumes inv: "exclusiveInvariant pe"
    and client: "map_of (clientPools pe) clientID = Some clientPool"
    and full: "\<not> nRunners pe < maxRunners pe"
    and small: "length (actors clientPool) < maxLength (clientPools pe)"
  defines "victim \<equiv> candidates (clientPools pe) ! (rnd mod length (candidates (clientPools pe)))"
  obtains victimPool where
    "map_of (clientPools pe) victim = Some victimPool"
    "victim \<in> set (candidates (clientPools pe))"
    "victim \<noteq> clientID"
    "length (actors victimPool) = maxLength (clientPools pe)"
    "fst (PolicyBalance_scaleDown victimPool) = Returned ()"
    "actors (snd (PolicyBalance_scaleDown victimPool)) = butlast (actors victimPool)"
    "statuses (sList (snd (PolicyBalance_scaleDown victimPool))) = butlast (statuses (sList victimPool))"
    "makeRoom pe clientID rnd (waits # later) =
       (fst (PolicyBalance_getRunner (PolicyBalance_scaleUp clientPool) clientID (None :: nat option) waits),
        setPool
          (setPool (setPool pe victim (snd (PolicyBalance_scaleDown victimPool)))
             clientID (PolicyBalance_scaleUp clientPool))
          clientID
          (snd (PolicyBalance_getRunner (PolicyBalance_scaleUp clientPool) clientID
                  (None :: nat option) waits)))"
proof -
  from inv have dist: "distinct (map fst (clientPools pe))" by (simp add: exclusiveInvariant_def)
  from small have pos: "0 < maxLength (clientPools pe)" by simp
  from candidates_nonempty [OF pos] have ne: "candidates (clientPools pe) \<noteq> []" .
  then have lot: "rnd mod length (candidates (clientPools pe)) < length (candidates (clientPools pe))"
    by simp
  then have vin: "victim \<in> set (candidates (clientPools pe))" by (simp add: victim_def)
  then obtain victimPool where vp: "(victim, victimPool) \<in> set (clientPools pe)"
    "length (actors victimPool) = maxLength (clientPools pe)"
    by (auto simp: candidates_iff)
  from vp(1) dist have mv: "map_of (clientPools pe) victim = Some victimPool" by simp
  have neq: "victim \<noteq> clientID" using mv client vp(2) small by auto
  from invariant_pool [OF inv mv] vp(2) pos
  have nonempty: "statuses (sList victimPool) \<noteq> []" "actors victimPool \<noteq> []" by auto
  note sd = scaleDown_returns [OF nonempty]
  have rr: "randrange rnd (length (candidates (clientPools pe)))
              = Inr (rnd mod length (candidates (clientPools pe)))"
    using ne by (simp add: randrange_def)
  have "makeRoom pe clientID rnd (waits # later) =
       (fst (PolicyBalance_getRunner (PolicyBalance_scaleUp clientPool) clientID (None :: nat option) waits),
        setPool
          (setPool (setPool pe victim (snd (PolicyBalance_scaleDown victimPool)))
             clientID (PolicyBalance_scaleUp clientPool))
          clientID
          (snd (PolicyBalance_getRunner (PolicyBalance_scaleUp clientPool) clientID
                  (None :: nat option) waits)))"
    using client full small rr mv neq sd(1)
    by (simp add: Let_def victim_def [symmetric] split_def)
  with mv vin neq vp(2) sd show thesis by (rule that)
qed


lemma clientPools_setPool: "clientPools (setPool pe c pool) = AList.update c pool (clientPools pe)"
  by (simp add: setPool_def)

lemma setPool_nRunners: "setPool (pe\<lparr>nRunners := n\<rparr>) c pool = (setPool pe c pool)\<lparr>nRunners := n\<rparr>"
  by (simp add: setPool_def)

text \<open>Each branch of \<^verbatim>\<open>_makeRoom\<close> keeps the invariant, and so does the loop.\<close>

lemma makeRoom_evicts_invariant:
  fixes rnd :: nat
  assumes inv: "exclusiveInvariant pe"
    and client: "map_of (clientPools pe) clientID = Some clientPool"
    and full: "\<not> nRunners pe < maxRunners pe"
    and small: "length (actors clientPool) < maxLength (clientPools pe)"
  shows "exclusiveInvariant (snd (makeRoom pe clientID rnd (waits # later)))"
    and "maxRunners (snd (makeRoom pe clientID rnd (waits # later))) = maxRunners pe"
proof -
  define victim where "victim = candidates (clientPools pe) ! (rnd mod length (candidates (clientPools pe)))"
  define cp1 where "cp1 = PolicyBalance_scaleUp clientPool"
  define cp2 where "cp2 = snd (PolicyBalance_getRunner cp1 clientID (None :: nat option) waits)"
  from makeRoom_evicts [OF inv client full small, of rnd waits later]
  obtain victimPool where v:
    "map_of (clientPools pe) victim = Some victimPool"
    "victim \<noteq> clientID"
    "length (actors victimPool) = maxLength (clientPools pe)"
    "actors (snd (PolicyBalance_scaleDown victimPool)) = butlast (actors victimPool)"
    "statuses (sList (snd (PolicyBalance_scaleDown victimPool))) = butlast (statuses (sList victimPool))"
    "makeRoom pe clientID rnd (waits # later) =
       (fst (PolicyBalance_getRunner cp1 clientID (None :: nat option) waits),
        setPool (setPool (setPool pe victim (snd (PolicyBalance_scaleDown victimPool))) clientID cp1)
          clientID cp2)"
    unfolding victim_def cp1_def cp2_def by metis
  define vp' where "vp' = snd (PolicyBalance_scaleDown victimPool)"
  define pe1 where "pe1 = setPool pe victim vp'"
  define pe2 where "pe2 = setPool pe1 clientID cp1"
  define pe3 where "pe3 = setPool pe2 clientID cp2"
  have res: "snd (makeRoom pe clientID rnd (waits # later)) = pe3"
    unfolding v(6) by (simp add: pe3_def pe2_def pe1_def vp'_def)
  from inv have dist: "distinct (map fst (clientPools pe))"
    and par: "\<forall>(c, pool) \<in> set (clientPools pe). length (statuses (sList pool)) = length (actors pool)"
    and tot: "totalRunners (clientPools pe) = nRunners pe" and le: "nRunners pe \<le> maxRunners pe"
    by (simp_all add: exclusiveInvariant_def)
  have pv: "length (statuses (sList vp')) = length (actors vp')"
    using invariant_pool [OF inv v(1)] by (simp add: vp'_def v(4,5))
  have pc1: "length (statuses (sList cp1)) = length (actors cp1)"
    using invariant_pool [OF inv client] by (simp add: cp1_def PolicyBalance_scaleUp_lengths)
  have pc2: "length (statuses (sList cp2)) = length (actors cp2)"
    using pc1 by (simp add: cp2_def PolicyBalance_getRunner_keeps)
  note s1 = setPool_shape [OF dist par pv, of victim, folded pe1_def]
  note s2 = setPool_shape [OF s1 pc1, of clientID, folded pe2_def]
  note s3 = setPool_shape [OF s2 pc2, of clientID, folded pe3_def]
  have m1: "map_of (clientPools pe1) clientID = Some clientPool"
    using client v(2) by (simp add: pe1_def)
  have m2: "map_of (clientPools pe2) clientID = Some cp1" by (simp add: pe2_def)
  have t1: "totalRunners (clientPools pe1) + length (actors victimPool)
              = totalRunners (clientPools pe) + length (actors vp')"
    using totalRunners_update_Some [OF v(1)] by (simp add: pe1_def clientPools_setPool)
  have t2: "totalRunners (clientPools pe2) + length (actors clientPool)
              = totalRunners (clientPools pe1) + length (actors cp1)"
    using totalRunners_update_Some [OF m1] by (simp add: pe2_def clientPools_setPool)
  have t3: "totalRunners (clientPools pe3) + length (actors cp1)
              = totalRunners (clientPools pe2) + length (actors cp2)"
    using totalRunners_update_Some [OF m2] by (simp add: pe3_def clientPools_setPool)
  have l1: "length (actors vp') + 1 = length (actors victimPool)"
    using v(3) small by (simp add: vp'_def v(4))
  have l2: "length (actors cp1) = length (actors clientPool) + 1"
    by (simp add: cp1_def PolicyBalance_scaleUp_lengths)
  have l3: "length (actors cp2) = length (actors cp1)"
    by (simp add: cp2_def PolicyBalance_getRunner_keeps)
  have "totalRunners (clientPools pe3) = totalRunners (clientPools pe)"
    using t1 t2 t3 l1 l2 l3 by linarith
  moreover have "nRunners pe3 = nRunners pe" "maxRunners pe3 = maxRunners pe"
    by (simp_all add: pe3_def pe2_def pe1_def)
  ultimately show "exclusiveInvariant (snd (makeRoom pe clientID rnd (waits # later)))"
    and "maxRunners (snd (makeRoom pe clientID rnd (waits # later))) = maxRunners pe"
    unfolding res using s3 tot le by (simp_all add: exclusiveInvariant_def)
qed

lemma makeRoom_scaleUp_invariant:
  assumes inv: "exclusiveInvariant pe"
    and client: "map_of (clientPools pe) clientID = Some clientPool"
    and room: "nRunners pe < maxRunners pe"
  shows "exclusiveInvariant (snd (makeRoom pe clientID rnd (waits # later)))"
    and "maxRunners (snd (makeRoom pe clientID rnd (waits # later))) = maxRunners pe"
proof -
  define cp1 where "cp1 = PolicyBalance_scaleUp clientPool"
  define cp2 where "cp2 = snd (PolicyBalance_getRunner cp1 clientID (None :: nat option) waits)"
  define pe1 where "pe1 = setPool pe clientID cp1"
  define pe2 where "pe2 = setPool pe1 clientID cp2"
  have res: "snd (makeRoom pe clientID rnd (waits # later)) = pe2\<lparr>nRunners := nRunners pe + 1\<rparr>"
    using client room
    by (simp add: Let_def split_def pe2_def pe1_def cp2_def cp1_def setPool_nRunners)
  from inv have dist: "distinct (map fst (clientPools pe))"
    and par: "\<forall>(c, pool) \<in> set (clientPools pe). length (statuses (sList pool)) = length (actors pool)"
    and tot: "totalRunners (clientPools pe) = nRunners pe"
    by (simp_all add: exclusiveInvariant_def)
  have pc1: "length (statuses (sList cp1)) = length (actors cp1)"
    using invariant_pool [OF inv client] by (simp add: cp1_def PolicyBalance_scaleUp_lengths)
  have pc2: "length (statuses (sList cp2)) = length (actors cp2)"
    using pc1 by (simp add: cp2_def PolicyBalance_getRunner_keeps)
  note s1 = setPool_shape [OF dist par pc1, of clientID, folded pe1_def]
  note s2 = setPool_shape [OF s1 pc2, of clientID, folded pe2_def]
  have m1: "map_of (clientPools pe1) clientID = Some cp1" by (simp add: pe1_def)
  have t1: "totalRunners (clientPools pe1) + length (actors clientPool)
              = totalRunners (clientPools pe) + length (actors cp1)"
    using totalRunners_update_Some [OF client] by (simp add: pe1_def clientPools_setPool)
  have t2: "totalRunners (clientPools pe2) + length (actors cp1)
              = totalRunners (clientPools pe1) + length (actors cp2)"
    using totalRunners_update_Some [OF m1] by (simp add: pe2_def clientPools_setPool)
  have l2: "length (actors cp1) = length (actors clientPool) + 1"
    by (simp add: cp1_def PolicyBalance_scaleUp_lengths)
  have l3: "length (actors cp2) = length (actors cp1)"
    by (simp add: cp2_def PolicyBalance_getRunner_keeps)
  have "totalRunners (clientPools pe2) = totalRunners (clientPools pe) + 1"
    using t1 t2 l2 l3 by linarith
  moreover have "maxRunners pe2 = maxRunners pe" by (simp add: pe2_def pe1_def)
  ultimately show "exclusiveInvariant (snd (makeRoom pe clientID rnd (waits # later)))"
    and "maxRunners (snd (makeRoom pe clientID rnd (waits # later))) = maxRunners pe"
    unfolding res using s2 tot room by (simp_all add: exclusiveInvariant_def)
qed

lemma makeRoom_invariant:
  "exclusiveInvariant pe \<Longrightarrow>
   exclusiveInvariant (snd (makeRoom pe clientID rnd later)) \<and>
   maxRunners (snd (makeRoom pe clientID rnd later)) = maxRunners pe"
proof (induction later arbitrary: pe)
  case Nil
  then show ?case by simp
next
  case (Cons waits later)
  note inv = Cons.prems
  show ?case
  proof (cases "map_of (clientPools pe) clientID")
    case None
    with inv show ?thesis by simp
  next
    case (Some clientPool)
    show ?thesis
    proof (cases "nRunners pe < maxRunners pe")
      case True
      from makeRoom_scaleUp_invariant [OF inv Some True] show ?thesis by simp
    next
      case full: False
      show ?thesis
      proof (cases "length (actors clientPool) < maxLength (clientPools pe)")
        case True
        from makeRoom_evicts_invariant [OF inv Some full True] show ?thesis by simp
      next
        case False
        define gr where "gr = PolicyBalance_getRunner clientPool clientID (None :: nat option) waits"
        define pe1 where "pe1 = setPool pe clientID (snd gr)"
        have inv1: "exclusiveInvariant pe1" unfolding pe1_def
          using invariant_pool [OF inv Some]
          by (intro setPool_same_length [OF inv Some])
            (simp_all add: gr_def PolicyBalance_getRunner_keeps)
        have mx: "maxRunners pe1 = maxRunners pe" by (simp add: pe1_def)
        have step: "makeRoom pe clientID rnd (waits # later) =
            (case fst gr of Returned None \<Rightarrow> makeRoom pe1 clientID rnd later
                          | other \<Rightarrow> (other, pe1))"
          unfolding pe1_def gr_def using Some full False by (simp add: Let_def split_def)
        show ?thesis
          unfolding step using Cons.IH [OF inv1] inv1 mx
          by (simp split: outcome.splits option.splits)
      qed
    qed
  qed
qed

text \<open>Every operation keeps the invariant, and \<^verbatim>\<open>maxRunners\<close>.\<close>

lemma PolicyBalance_getStats_keeps:
  "actors (snd (PolicyBalance_getStats merge p)) = actors p"
  "sList (snd (PolicyBalance_getStats merge p)) = sList p"
  by (simp_all add: PolicyBalance_getStats_def Let_def collectStats_keeps)

lemma poolsStats_Cons:
  "snd (poolsStats merge ((c, pool) # pools) m) =
     (c, snd (PolicyBalance_getStats merge pool)) #
     snd (poolsStats merge pools (mergePerClientStats merge m (fst (PolicyBalance_getStats merge pool))))"
  by (simp add: split_def Let_def)

lemma poolsStats_keys: "map fst (snd (poolsStats merge pools m)) = map fst pools"
proof (induction pools arbitrary: m)
  case Nil
  then show ?case by simp
next
  case (Cons x pools)
  obtain c pool where x: "x = (c, pool)" by (cases x)
  show ?case unfolding x poolsStats_Cons by (simp add: Cons.IH)
qed

lemma poolsStats_total: "totalRunners (snd (poolsStats merge pools m)) = totalRunners pools"
proof (induction pools arbitrary: m)
  case Nil
  then show ?case by simp
next
  case (Cons x pools)
  obtain c pool where x: "x = (c, pool)" by (cases x)
  show ?case unfolding x poolsStats_Cons
    using Cons.IH by (simp add: totalRunners_def PolicyBalance_getStats_keeps)
qed

lemma poolsStats_parallel:
  "\<forall>(c, pool) \<in> set pools. length (statuses (sList pool)) = length (actors pool) \<Longrightarrow>
   \<forall>(c, pool) \<in> set (snd (poolsStats merge pools m)).
      length (statuses (sList pool)) = length (actors pool)"
proof (induction pools arbitrary: m)
  case Nil
  then show ?case by simp
next
  case (Cons x pools)
  obtain c pool where x: "x = (c, pool)" by (cases x)
  show ?case unfolding x poolsStats_Cons
    using Cons.IH Cons.prems by (simp add: x PolicyBalance_getStats_keeps)
qed

lemma PolicyExclusive_getStats_invariant:
  "exclusiveInvariant pe \<Longrightarrow>
   exclusiveInvariant (snd (PolicyExclusive_getStats merge pe)) \<and>
   maxRunners (snd (PolicyExclusive_getStats merge pe)) = maxRunners pe"
  using poolsStats_parallel [of "clientPools pe" merge Map.empty]
  by (simp add: PolicyExclusive_getStats_def exclusiveInvariant_def split_def Let_def
      poolsStats_keys poolsStats_total)

lemma PolicyExclusive_update_invariant:
  "exclusiveInvariant pe \<Longrightarrow>
   exclusiveInvariant (snd (PolicyExclusive_update pe clientID handle respFutures)) \<and>
   maxRunners (snd (PolicyExclusive_update pe clientID handle respFutures)) = maxRunners pe"
proof (cases "map_of (clientPools pe) clientID")
  case None
  assume "exclusiveInvariant pe"
  with None show ?thesis by (simp add: PolicyExclusive_update_def)
next
  case (Some pool)
  assume inv: "exclusiveInvariant pe"
  have "exclusiveInvariant (setPool pe clientID (snd (PolicyBalance_update pool clientID handle respFutures)))"
    using invariant_pool [OF inv Some]
    by (intro setPool_same_length [OF inv Some]) (simp_all add: PolicyBalance_update_keeps)
  with Some show ?thesis by (simp add: PolicyExclusive_update_def split_def Let_def)
qed

lemma PolicyBalance_init_0 [simp]:
  "actors (PolicyBalance_init 0) = []" "statuses (sList (PolicyBalance_init 0)) = []"
  by (simp_all add: PolicyBalance_init_def statusList_init_def)

lemma PolicyExclusive_getRunner_invariant:
  assumes inv: "exclusiveInvariant pe"
  shows "exclusiveInvariant (snd (PolicyExclusive_getRunner pe clientID rnd waits later)) \<and>
   maxRunners (snd (PolicyExclusive_getRunner pe clientID rnd waits later)) = maxRunners pe"
proof -
  define clientPool :: "('a, 'b, 'c) PolicyBalance" where
    "clientPool = (case map_of (clientPools pe) clientID of
                     Some clientPool \<Rightarrow> clientPool | None \<Rightarrow> PolicyBalance_init 0)"
  define pe1 where
    "pe1 = (case map_of (clientPools pe) clientID of
              Some clientPool \<Rightarrow> pe | None \<Rightarrow> setPool pe clientID (PolicyBalance_init 0))"
  define gr where "gr = PolicyBalance_getRunner clientPool clientID (Some (10 :: nat)) waits"
  define pe2 where "pe2 = setPool pe1 clientID (snd gr)"
  have m1: "map_of (clientPools pe1) clientID = Some clientPool"
    by (simp add: pe1_def clientPool_def split: option.splits)
  have inv1: "exclusiveInvariant pe1"
  proof (cases "map_of (clientPools pe) clientID")
    case None
    from inv have "distinct (map fst (clientPools pe))"
      and "\<forall>(c, pool) \<in> set (clientPools pe). length (statuses (sList pool)) = length (actors pool)"
      by (simp_all add: exclusiveInvariant_def)
    from setPool_shape [OF this, of "PolicyBalance_init 0" clientID]
      totalRunners_update_None [OF None, of "PolicyBalance_init 0"] inv
    show ?thesis by (simp add: pe1_def None exclusiveInvariant_def clientPools_setPool)
  next
    case (Some a)
    with inv show ?thesis by (simp add: pe1_def)
  qed
  have mx1: "maxRunners pe1 = maxRunners pe" by (simp add: pe1_def split: option.splits)
  have inv2: "exclusiveInvariant pe2" unfolding pe2_def
    using invariant_pool [OF inv1 m1]
    by (intro setPool_same_length [OF inv1 m1]) (simp_all add: gr_def PolicyBalance_getRunner_keeps)
  have mx2: "maxRunners pe2 = maxRunners pe" by (simp add: pe2_def mx1)
  obtain res3 pe3 where mr: "makeRoom pe2 clientID rnd later = (res3, pe3)"
    by (cases "makeRoom pe2 clientID rnd later")
  have eq: "PolicyExclusive_getRunner pe clientID rnd waits later =
      (case fst gr of
         Returned (Some runner) \<Rightarrow> (Returned runner, pe2)
       | Returned None \<Rightarrow>
           (case makeRoom pe2 clientID rnd later of
              (Returned None, pe3) \<Rightarrow> (Raised RuntimeError, pe3)
            | (Returned (Some runner), pe3) \<Rightarrow> (Returned runner, pe3)
            | (Raised e, pe3) \<Rightarrow> (Raised e, pe3)
            | (BlockedOnReservedCv, pe3) \<Rightarrow> (BlockedOnReservedCv, pe3)
            | (BlockedOnRayWait, pe3) \<Rightarrow> (BlockedOnRayWait, pe3)
            | (Looping, pe3) \<Rightarrow> (Looping, pe3))
       | Raised e \<Rightarrow> (Raised e, pe2)
       | BlockedOnReservedCv \<Rightarrow> (BlockedOnReservedCv, pe2)
       | BlockedOnRayWait \<Rightarrow> (BlockedOnRayWait, pe2)
       | Looping \<Rightarrow> (Looping, pe2))"
    unfolding pe2_def gr_def clientPool_def pe1_def
    by (cases "map_of (clientPools pe) clientID")
      (simp_all add: PolicyExclusive_getRunner_def Let_def split_def
        cong: outcome.case_cong option.case_cong)
  have "snd (PolicyExclusive_getRunner pe clientID rnd waits later) = pe2 \<or>
        snd (PolicyExclusive_getRunner pe clientID rnd waits later) = pe3"
  proof (cases "fst gr")
    case (Returned x)
    then show ?thesis
      by (cases x; cases res3) (simp_all add: eq mr split: option.splits)
  qed (simp_all add: eq)
  with inv2 mx2 makeRoom_invariant [OF inv2, of clientID rnd later] mr show ?thesis by auto
qed

lemma PolicyExclusive_init_invariant: "exclusiveInvariant (PolicyExclusive_init n)"
  by (simp add: exclusiveInvariant_def PolicyExclusive_init_def totalRunners_def)

lemma runOp_invariant:
  "exclusiveInvariant pe \<Longrightarrow>
   exclusiveInvariant (runOp merge pe op) \<and> maxRunners (runOp merge pe op) = maxRunners pe"
  by (cases op)
    (simp_all add: PolicyExclusive_getRunner_invariant PolicyExclusive_update_invariant
      PolicyExclusive_getStats_invariant)

lemma runOps_invariant:
  "exclusiveInvariant pe \<Longrightarrow>
   exclusiveInvariant (runOps merge ops pe) \<and> maxRunners (runOps merge ops pe) = maxRunners pe"
  unfolding runOps_def
proof (induction ops arbitrary: pe)
  case Nil
  then show ?case by simp
next
  case (Cons op ops)
  from runOp_invariant [OF Cons.prems, of merge op] Cons.IH [of "runOp merge pe op"]
  show ?case by simp
qed

section \<open>The budget of PolicyExclusive\<close>

lemma invariant_client:
  assumes inv: "exclusiveInvariant pe" and "clientID \<in> fst ` set (clientPools pe)"
  obtains clientPool where "map_of (clientPools pe) clientID = Some clientPool"
    "poolLength (clientPools pe) clientID = length (actors clientPool)"
proof -
  from assms(2) obtain clientPool where "(clientID, clientPool) \<in> set (clientPools pe)" by auto
  moreover from inv have "distinct (map fst (clientPools pe))" by (simp add: exclusiveInvariant_def)
  ultimately have "map_of (clientPools pe) clientID = Some clientPool" by simp
  then show thesis by (rule that) (simp add: poolLength_def \<open>map_of (clientPools pe) clientID = Some clientPool\<close>)
qed

text \<open>What the evicting step of \<^verbatim>\<open>_makeRoom\<close> does to the sizes of the pools.\<close>

lemma makeRoom_evicts_lengths:
  fixes rnd :: nat and waits :: "objectRef list list" and later :: "objectRef list list list"
  assumes inv: "exclusiveInvariant pe"
    and client: "clientID \<in> fst ` set (clientPools pe)"
    and full: "\<not> nRunners pe < maxRunners pe"
    and small: "poolLength (clientPools pe) clientID < maxLength (clientPools pe)"
  defines "victim \<equiv> candidates (clientPools pe) ! (rnd mod length (candidates (clientPools pe)))"
    and "pe' \<equiv> snd (makeRoom pe clientID rnd (waits # later))"
  shows "victim \<in> set (candidates (clientPools pe))"
    and "victim \<noteq> clientID"
    and "poolLength (clientPools pe) victim = maxLength (clientPools pe)"
    and "poolLength (clientPools pe') victim + 1 = poolLength (clientPools pe) victim"
    and "poolLength (clientPools pe') clientID = poolLength (clientPools pe) clientID + 1"
    and "\<And>c. c \<noteq> victim \<Longrightarrow> c \<noteq> clientID \<Longrightarrow>
           map_of (clientPools pe') c = map_of (clientPools pe) c"
proof -
  from invariant_client [OF inv client] obtain clientPool
    where cp: "map_of (clientPools pe) clientID = Some clientPool"
      "poolLength (clientPools pe) clientID = length (actors clientPool)" by blast
  from small cp(2) have small': "length (actors clientPool) < maxLength (clientPools pe)" by simp
  from makeRoom_evicts [OF inv cp(1) full small', of rnd waits later]
  obtain victimPool where v:
    "map_of (clientPools pe) victim = Some victimPool"
    "victim \<in> set (candidates (clientPools pe))"
    "victim \<noteq> clientID"
    "length (actors victimPool) = maxLength (clientPools pe)"
    "actors (snd (PolicyBalance_scaleDown victimPool)) = butlast (actors victimPool)"
    "pe' = setPool
          (setPool (setPool pe victim (snd (PolicyBalance_scaleDown victimPool)))
             clientID (PolicyBalance_scaleUp clientPool))
          clientID
          (snd (PolicyBalance_getRunner (PolicyBalance_scaleUp clientPool) clientID
                  (None :: nat option) waits))"
    unfolding victim_def pe'_def by (metis snd_conv)
  show "victim \<in> set (candidates (clientPools pe))" by (rule v(2))
  show "victim \<noteq> clientID" by (rule v(3))
  show "poolLength (clientPools pe) victim = maxLength (clientPools pe)"
    by (simp add: poolLength_def v(1) v(4))
  show "poolLength (clientPools pe') victim + 1 = poolLength (clientPools pe) victim"
    using v(3) v(4) small' by (simp add: v(6) v(5)) (simp add: poolLength_def v(1))
  show "poolLength (clientPools pe') clientID = poolLength (clientPools pe) clientID + 1"
    by (simp add: v(6) cp(2) PolicyBalance_getRunner_keeps PolicyBalance_scaleUp_lengths)
  show "map_of (clientPools pe') c = map_of (clientPools pe) c" if "c \<noteq> victim" "c \<noteq> clientID" for c
    using that by (simp add: v(6))
qed

text \<open>
  C5. In every state that a sequence of operations reaches from a new
  \<^verbatim>\<open>PolicyExclusive(n)\<close>, \<^verbatim>\<open>maxRunners\<close> is \<open>n\<close> and the sizes of the pools sum to at most
  \<^verbatim>\<open>maxRunners\<close>. When \<^verbatim>\<open>_makeRoom\<close> evicts in such a state (the caller has a pool,
  \<^verbatim>\<open>nRunners\<close> is not below \<^verbatim>\<open>maxRunners\<close>, and the caller's pool is smaller than the
  largest), the victim is a tenant other than the caller and its pool shrinks by exactly
  one worker; the caller's pool grows by one, every other pool keeps its size, and the
  sum is still at most \<^verbatim>\<open>maxRunners\<close>.
\<close>

theorem PolicyExclusive_budget:
  fixes rnd :: nat and waits :: "objectRef list list" and later :: "objectRef list list list"
    and n :: nat and ops :: "'c exclusiveOp list" and merge :: "'p \<Rightarrow> 'p \<Rightarrow> 'p"
  defines "pe \<equiv> runOps merge ops (PolicyExclusive_init n :: ('c, 'm, 'p) PolicyExclusive)"
  shows "maxRunners pe = n \<and> totalRunners (clientPools pe) \<le> maxRunners pe \<and>
    (clientID \<in> fst ` set (clientPools pe) \<and> \<not> nRunners pe < maxRunners pe \<and>
     poolLength (clientPools pe) clientID < maxLength (clientPools pe) \<longrightarrow>
       (let victim = candidates (clientPools pe) ! (rnd mod length (candidates (clientPools pe)));
            pe' = snd (makeRoom pe clientID rnd (waits # later))
        in victim \<noteq> clientID \<and>
           poolLength (clientPools pe') victim + 1 = poolLength (clientPools pe) victim \<and>
           poolLength (clientPools pe') clientID = poolLength (clientPools pe) clientID + 1 \<and>
           (\<forall>c. c \<noteq> victim \<and> c \<noteq> clientID \<longrightarrow>
                poolLength (clientPools pe') c = poolLength (clientPools pe) c) \<and>
           totalRunners (clientPools pe') \<le> maxRunners pe' \<and> maxRunners pe' = n))"
proof -
  have inv: "exclusiveInvariant pe"
    unfolding pe_def by (rule runOps_invariant [OF PolicyExclusive_init_invariant, THEN conjunct1])
  have mx: "maxRunners pe = n"
    unfolding pe_def
    by (subst runOps_invariant [OF PolicyExclusive_init_invariant, THEN conjunct2])
      (simp add: PolicyExclusive_init_def)
  from inv have le: "totalRunners (clientPools pe) \<le> maxRunners pe"
    by (simp add: exclusiveInvariant_def)
  have ev: "(let victim = candidates (clientPools pe) ! (rnd mod length (candidates (clientPools pe)));
            pe' = snd (makeRoom pe clientID rnd (waits # later))
        in victim \<noteq> clientID \<and>
           poolLength (clientPools pe') victim + 1 = poolLength (clientPools pe) victim \<and>
           poolLength (clientPools pe') clientID = poolLength (clientPools pe) clientID + 1 \<and>
           (\<forall>c. c \<noteq> victim \<and> c \<noteq> clientID \<longrightarrow>
                poolLength (clientPools pe') c = poolLength (clientPools pe) c) \<and>
           totalRunners (clientPools pe') \<le> maxRunners pe' \<and> maxRunners pe' = n)"
    if h: "clientID \<in> fst ` set (clientPools pe)" "\<not> nRunners pe < maxRunners pe"
      "poolLength (clientPools pe) clientID < maxLength (clientPools pe)"
  proof -
    note l2 = makeRoom_evicts_lengths(2) [OF inv h, where rnd = rnd]
    note l4 = makeRoom_evicts_lengths(4) [OF inv h, where rnd = rnd and waits = waits and later = later]
    note l5 = makeRoom_evicts_lengths(5) [OF inv h, where rnd = rnd and waits = waits and later = later]
    note l6 = makeRoom_evicts_lengths(6) [OF inv h, where rnd = rnd and waits = waits and later = later]
    from makeRoom_invariant [OF inv, of clientID rnd "waits # later"]
    have "totalRunners (clientPools (snd (makeRoom pe clientID rnd (waits # later))))
            \<le> maxRunners (snd (makeRoom pe clientID rnd (waits # later)))"
      and "maxRunners (snd (makeRoom pe clientID rnd (waits # later))) = n"
      by (simp_all add: exclusiveInvariant_def mx)
    with l2 l4 l5 l6 show ?thesis
      unfolding Let_def by (simp add: poolLength_def)
  qed
  from mx le ev show ?thesis by blast
qed


text \<open>
  A budget of one runner: tenant 0 gets the runner, tenant 1 takes it by eviction. When
  tenant 0 asks again, tenant 1 is evicted: its pool goes from one worker to none.
\<close>

theorem PolicyExclusive_budget_witness:
  "(let pe = runOps (+) [GetRunner 0 0 [] [[]], GetRunner 1 0 [] [[]]]
               (PolicyExclusive_init 1 :: (nat, unit, nat) PolicyExclusive);
        pe' = snd (makeRoom pe 0 0 [[]])
    in maxRunners pe = 1 \<and> totalRunners (clientPools pe) \<le> maxRunners pe \<and>
       poolLength (clientPools pe) 0 = 0 \<and> poolLength (clientPools pe) 1 = 1 \<and>
       poolLength (clientPools pe') 0 = 1 \<and> poolLength (clientPools pe') 1 = 0 \<and>
       totalRunners (clientPools pe') \<le> maxRunners pe')"
proof -
  define pe where "pe = runOps (+) [GetRunner 0 0 [] [[]], GetRunner 1 0 [] [[]]]
               (PolicyExclusive_init 1 :: (nat, unit, nat) PolicyExclusive)"
  define pe' where "pe' = snd (makeRoom pe 0 0 [[]])"
  have h1: "0 \<in> fst ` set (clientPools pe)" unfolding pe_def by code_simp
  have h2: "\<not> nRunners pe < maxRunners pe" unfolding pe_def by code_simp
  have h3: "poolLength (clientPools pe) 0 < maxLength (clientPools pe)" unfolding pe_def by code_simp
  have v: "candidates (clientPools pe) ! (0 mod length (candidates (clientPools pe))) = 1"
    unfolding pe_def by code_simp
  have p: "poolLength (clientPools pe) 0 = 0" "poolLength (clientPools pe) 1 = 1"
    unfolding pe_def by code_simp+
  have "maxRunners pe = 1 \<and> totalRunners (clientPools pe) \<le> maxRunners pe \<and>
       poolLength (clientPools pe') 0 = 1 \<and> poolLength (clientPools pe') 1 = 0 \<and>
       totalRunners (clientPools pe') \<le> maxRunners pe'"
    using PolicyExclusive_budget [where ?'m = unit and merge = "(+) :: nat \<Rightarrow> nat \<Rightarrow> nat"
        and ops = "[GetRunner 0 0 [] [[]], GetRunner 1 0 [] [[]]] :: nat exclusiveOp list"
        and n = 1 and clientID = 0 and rnd = 0 and waits = "[]" and later = "[]",
        folded pe_def, folded pe'_def]
      h1 h2 h3 v p
    by (simp add: Let_def del: makeRoom.simps)
  with p show ?thesis unfolding Let_def pe'_def pe_def by blast
qed

section \<open>The choice of the victim\<close>

lemma randrange_below:
  "0 < n \<Longrightarrow> randrange rnd n = Inr (rnd mod n) \<and> rnd mod n < n"
  "lot < n \<Longrightarrow> randrange lot n = Inr lot"
  by (simp_all add: randrange_def)

text \<open>
  C4. Take a state that a sequence of operations reaches from a new
  \<^verbatim>\<open>PolicyExclusive(n)\<close>, in which \<^verbatim>\<open>_makeRoom\<close> evicts for the caller. Then
  \<^verbatim>\<open>candidates\<close> lists exactly the tenants whose pool is of maximal size, each once, so
  that the index into it is a bijection between the numbers below its length and these
  tenants; \<^verbatim>\<open>lot\<close> is a number below the length, and every such number can be drawn. The
  victim \<^verbatim>\<open>candidates[lot]\<close> is a tenant of maximal pool size and is the tenant whose
  pool is scaled down. A tenant other than the caller whose pool is as large as the
  caller's or smaller is not the victim, and its pool is left as it is. (That the draw
  is uniform is a property of \<^verbatim>\<open>random.randrange\<close>; by the bijection a uniform
  \<^verbatim>\<open>lot\<close> is a uniform victim.)
\<close>

theorem makeRoom_victim:
  fixes rnd :: nat and waits :: "objectRef list list" and later :: "objectRef list list list"
    and n :: nat and ops :: "'c exclusiveOp list" and merge :: "'p \<Rightarrow> 'p \<Rightarrow> 'p"
  defines "pe \<equiv> runOps merge ops (PolicyExclusive_init n :: ('c, 'm, 'p) PolicyExclusive)"
  shows "clientID \<in> fst ` set (clientPools pe) \<and> \<not> nRunners pe < maxRunners pe \<and>
     poolLength (clientPools pe) clientID < maxLength (clientPools pe) \<longrightarrow>
       (let cands = candidates (clientPools pe);
            victim = cands ! (rnd mod length cands);
            pe' = snd (makeRoom pe clientID rnd (waits # later))
        in set cands = largestPools (clientPools pe) \<and> distinct cands \<and>
           bij_betw ((!) cands) {..<length cands} (largestPools (clientPools pe)) \<and>
           randrange rnd (length cands) = Inr (rnd mod length cands) \<and>
           rnd mod length cands < length cands \<and>
           (\<forall>lot < length cands. randrange lot (length cands) = Inr lot) \<and>
           victim \<in> largestPools (clientPools pe) \<and>
           poolLength (clientPools pe') victim < poolLength (clientPools pe) victim \<and>
           (\<forall>c. c \<noteq> clientID \<and>
                poolLength (clientPools pe) c \<le> poolLength (clientPools pe) clientID \<longrightarrow>
                c \<noteq> victim \<and> map_of (clientPools pe') c = map_of (clientPools pe) c))"
proof (intro impI, elim conjE)
  assume h: "clientID \<in> fst ` set (clientPools pe)" "\<not> nRunners pe < maxRunners pe"
    "poolLength (clientPools pe) clientID < maxLength (clientPools pe)"
  have inv: "exclusiveInvariant pe"
    unfolding pe_def by (rule runOps_invariant [OF PolicyExclusive_init_invariant, THEN conjunct1])
  then have dist: "distinct (map fst (clientPools pe))" by (simp add: exclusiveInvariant_def)
  define cands where "cands = candidates (clientPools pe)"
  define victim where "victim = cands ! (rnd mod length cands)"
  define pe' where "pe' = snd (makeRoom pe clientID rnd (waits # later))"
  note l1 = makeRoom_evicts_lengths(1) [OF inv h, where rnd = rnd, folded cands_def victim_def]
  note l3 = makeRoom_evicts_lengths(3) [OF inv h, where rnd = rnd, folded cands_def victim_def]
  note l4 = makeRoom_evicts_lengths(4) [OF inv h, where rnd = rnd and waits = waits and later = later,
      folded cands_def victim_def pe'_def]
  note l6 = makeRoom_evicts_lengths(6) [OF inv h, where rnd = rnd and waits = waits and later = later,
      folded cands_def victim_def pe'_def]
  have large: "set cands = largestPools (clientPools pe)"
    unfolding cands_def by (rule candidates_largest [OF dist])
  have d: "distinct cands" unfolding cands_def by (rule candidates_distinct [OF dist])
  have pos: "0 < length cands" using l1 by (cases cands) auto
  have bij: "bij_betw ((!) cands) {..<length cands} (largestPools (clientPools pe))"
    using d large by (intro bij_betw_nth) auto
  have other: "c \<noteq> victim \<and> map_of (clientPools pe') c = map_of (clientPools pe) c"
    if "c \<noteq> clientID" "poolLength (clientPools pe) c \<le> poolLength (clientPools pe) clientID" for c
  proof -
    from that(2) h(3) l3 have "c \<noteq> victim" by (auto simp: victim_def)
    with that(1) l6 show ?thesis by (simp add: victim_def)
  qed
  have "set cands = largestPools (clientPools pe) \<and> distinct cands \<and>
           bij_betw ((!) cands) {..<length cands} (largestPools (clientPools pe)) \<and>
           randrange rnd (length cands) = Inr (rnd mod length cands) \<and>
           rnd mod length cands < length cands \<and>
           (\<forall>lot < length cands. randrange lot (length cands) = Inr lot) \<and>
           victim \<in> largestPools (clientPools pe) \<and>
           poolLength (clientPools pe') victim < poolLength (clientPools pe) victim \<and>
           (\<forall>c. c \<noteq> clientID \<and>
                poolLength (clientPools pe) c \<le> poolLength (clientPools pe) clientID \<longrightarrow>
                c \<noteq> victim \<and> map_of (clientPools pe') c = map_of (clientPools pe) c)"
    using large d bij randrange_below(1) [OF pos, of rnd] randrange_below(2) [of _ "length cands"]
      l1 l4 other
    by (auto simp: victim_def)
  then show "let cands = candidates (clientPools pe);
            victim = cands ! (rnd mod length cands);
            pe' = snd (makeRoom pe clientID rnd (waits # later))
        in set cands = largestPools (clientPools pe) \<and> distinct cands \<and>
           bij_betw ((!) cands) {..<length cands} (largestPools (clientPools pe)) \<and>
           randrange rnd (length cands) = Inr (rnd mod length cands) \<and>
           rnd mod length cands < length cands \<and>
           (\<forall>lot < length cands. randrange lot (length cands) = Inr lot) \<and>
           victim \<in> largestPools (clientPools pe) \<and>
           poolLength (clientPools pe') victim < poolLength (clientPools pe) victim \<and>
           (\<forall>c. c \<noteq> clientID \<and>
                poolLength (clientPools pe) c \<le> poolLength (clientPools pe) clientID \<longrightarrow>
                c \<noteq> victim \<and> map_of (clientPools pe') c = map_of (clientPools pe) c)"
    unfolding Let_def cands_def victim_def pe'_def cands_def .
qed


text \<open>
  A budget of two runners and four tenants: tenants 0 and 1 get a runner each, tenant 2
  takes the runner of tenant 0 and tenant 3 the runner of tenant 1. When tenant 0 asks
  again, the candidates are the tenants 2 and 3; with the lot 1 the victim is tenant 3,
  and the pool of tenant 1, as small as the caller's, is left as it is.
\<close>

theorem makeRoom_victim_witness:
  "(let pe = runOps (+) [GetRunner 0 0 [] [[]], GetRunner 1 0 [] [[]], GetRunner 2 0 [] [[]],
                         GetRunner 3 0 [] [[]]]
               (PolicyExclusive_init 2 :: (nat, unit, nat) PolicyExclusive);
        cands = candidates (clientPools pe);
        pe' = snd (makeRoom pe 0 1 [[]])
    in cands = [2, 3] \<and> largestPools (clientPools pe) = {2, 3} \<and>
       cands ! (1 mod length cands) = 3 \<and>
       poolLength (clientPools pe') 3 < poolLength (clientPools pe) 3 \<and>
       poolLength (clientPools pe) 1 \<le> poolLength (clientPools pe) 0 \<and>
       map_of (clientPools pe') 1 = map_of (clientPools pe) 1)"
proof -
  define pe where "pe = runOps (+) [GetRunner 0 0 [] [[]], GetRunner 1 0 [] [[]],
                         GetRunner 2 0 [] [[]], GetRunner 3 0 [] [[]]]
               (PolicyExclusive_init 2 :: (nat, unit, nat) PolicyExclusive)"
  define pe' where "pe' = snd (makeRoom pe 0 1 [[]])"
  have h: "0 \<in> fst ` set (clientPools pe) \<and> \<not> nRunners pe < maxRunners pe \<and>
     poolLength (clientPools pe) 0 < maxLength (clientPools pe)"
    unfolding pe_def by code_simp
  have c: "candidates (clientPools pe) = [2, 3]" unfolding pe_def by code_simp
  have p: "poolLength (clientPools pe) 1 \<le> poolLength (clientPools pe) 0"
    unfolding pe_def by code_simp
  from makeRoom_victim [where ?'m = unit and merge = "(+) :: nat \<Rightarrow> nat \<Rightarrow> nat"
        and ops = "[GetRunner 0 0 [] [[]], GetRunner 1 0 [] [[]], GetRunner 2 0 [] [[]],
                    GetRunner 3 0 [] [[]]] :: nat exclusiveOp list"
        and n = 2 and clientID = 0 and rnd = 1 and waits = "[]" and later = "[]",
        folded pe_def, folded pe'_def, THEN mp, OF h]
  have "candidates (clientPools pe) = [2, 3] \<and> largestPools (clientPools pe) = {2, 3} \<and>
       candidates (clientPools pe) ! (1 mod length (candidates (clientPools pe))) = 3 \<and>
       poolLength (clientPools pe') 3 < poolLength (clientPools pe) 3 \<and>
       poolLength (clientPools pe) 1 \<le> poolLength (clientPools pe) 0 \<and>
       map_of (clientPools pe') 1 = map_of (clientPools pe) 1"
    using c p by (simp add: Let_def del: makeRoom.simps)
  then show ?thesis unfolding Let_def pe'_def pe_def .
qed

section \<open>The status list without scaleDown of a reserved worker\<close>

text \<open>
  \<^verbatim>\<open>updateState\<close> keeps \<^verbatim>\<open>nReserved\<close> equal to the number of RESERVED statuses, as long
  as it is not asked to reserve a status that is reserved already or is not in the list;
  \<^verbatim>\<open>pickActorBalanced\<close> reserves IDLE statuses of the list only.
\<close>

lemma count_change:
  "distinct ss \<Longrightarrow> s \<in> set ss \<Longrightarrow> \<forall>x. x \<noteq> s \<longrightarrow> P' x = P x \<Longrightarrow>
   int (length (filter P' ss))
     = int (length (filter P ss)) - (if P s then 1 else 0) + (if P' s then 1 else 0)"
proof (induction ss)
  case Nil
  then show ?case by simp
next
  case (Cons a ss)
  show ?case
  proof (cases "a = s")
    case True
    with Cons.prems have "s \<notin> set ss" by simp
    with Cons.prems(3) have "filter P' ss = filter P ss"
      by (intro filter_cong) auto
    with True show ?thesis by simp
  next
    case False
    with Cons.prems have p: "distinct ss" "s \<in> set ss" and a: "P' a = P a" by auto
    from Cons.IH [OF p Cons.prems(3)] a show ?thesis by (auto split: if_splits)
  qed
qed

lemma count_same:
  "\<forall>x \<in> set ss. P' x = P x \<Longrightarrow> length (filter P' ss) = length (filter P ss)"
  by (simp cong: filter_cong)

lemma statusListWf_updateState:
  assumes wf: "statusListWf sl"
    and ok: "state (heap sl s) \<noteq> RESERVED \<or> newState \<noteq> RESERVED"
    and inlist: "s \<in> set (statuses sl) \<or> newState \<noteq> RESERVED"
  shows "statusListWf (updateState sl s newState)"
proof -
  define sl' where "sl' = updateState sl s newState"
  have st: "statuses sl' = statuses sl" "nextStatus sl' = nextStatus sl"
    by (simp_all add: sl'_def updateState_def setState_def)
  have hp: "state (heap sl' x) = (if x = s then newState else state (heap sl x))" for x
    by (simp add: sl'_def updateState_def setState_def)
  have nr: "nReserved sl' = nReserved sl - (if state (heap sl s) = RESERVED then 1 else 0)
              + (if state (heap sl s) \<noteq> RESERVED \<and> newState = RESERVED then 1 else 0)"
    by (simp add: sl'_def updateState_def setState_def)
  from wf have d: "distinct (statuses sl)" and n: "nReserved sl = int (countState sl RESERVED)"
    and off: "\<forall>x. x \<notin> set (statuses sl) \<longrightarrow> state (heap sl x) \<noteq> RESERVED"
    and bound: "\<forall>x \<in> set (statuses sl). x < nextStatus sl"
    by (simp_all add: statusListWf_def)
  have cnt: "nReserved sl' = int (countState sl' RESERVED)"
  proof (cases "s \<in> set (statuses sl)")
    case True
    have "int (countState sl' RESERVED) = int (countState sl RESERVED)
            - (if state (heap sl s) = RESERVED then 1 else 0)
            + (if state (heap sl' s) = RESERVED then 1 else 0)"
      unfolding countState_def st
      by (rule count_change [OF d True]) (simp add: hp)
    with nr n ok show ?thesis by (auto simp: hp)
  next
    case False
    have "countState sl' RESERVED = countState sl RESERVED"
      unfolding countState_def st using False by (intro count_same) (auto simp: hp)
    with nr n off False inlist show ?thesis by auto
  qed
  have off': "\<forall>x. x \<notin> set (statuses sl') \<longrightarrow> state (heap sl' x) \<noteq> RESERVED"
    using off inlist by (auto simp: st hp)
  from d bound cnt off' show ?thesis
    unfolding sl'_def [symmetric] by (simp add: statusListWf_def st)
qed

lemma statusListWf_setRef: "statusListWf sl \<Longrightarrow> statusListWf (setRef sl s r)"
proof -
  have "countState (setRef sl s r) RESERVED = countState sl RESERVED"
    unfolding countState_def setRef_statuses by (rule count_same) (simp add: setRef_def)
  moreover have "state (heap (setRef sl s r) x) = state (heap sl x)" for x
    by (simp add: setRef_def)
  moreover have "statuses (setRef sl s r) = statuses sl" "nextStatus (setRef sl s r) = nextStatus sl"
    "nReserved (setRef sl s r) = nReserved sl"
    by (simp_all add: setRef_def)
  ultimately show "statusListWf sl \<Longrightarrow> statusListWf (setRef sl s r)"
    by (simp add: statusListWf_def)
qed

lemma setRef_state [simp]: "state (heap (setRef sl s r) x) = state (heap sl x)"
  by (simp add: setRef_def)

lemma updateState_state:
  "state (heap (updateState sl s st) x) = (if x = s then st else state (heap sl x))"
  by (simp add: updateState_def setState_def)


lemma markReady_wf:
  "statusListWf sl \<Longrightarrow>
   (case markReady r i ss sl idle of Inl (e, sl') \<Rightarrow> statusListWf sl'
                                    | Inr (sl', idle') \<Rightarrow> statusListWf sl')"
proof (induction ss arbitrary: i sl idle)
  case Nil
  then show ?case by simp
next
  case (Cons status rest)
  have step: "statusListWf (setRef (updateState sl status IDLE) status None)"
    by (intro statusListWf_setRef statusListWf_updateState Cons.prems) simp_all
  show ?case
    using Cons.IH [OF Cons.prems] Cons.IH [OF step] Cons.prems by simp
qed

lemma markAllReady_wf:
  "statusListWf sl \<Longrightarrow>
   (case markAllReady rs sl idle of Inl (e, sl') \<Rightarrow> statusListWf sl'
                                   | Inr (sl', idle') \<Rightarrow> statusListWf sl')"
proof (induction rs arbitrary: sl idle)
  case Nil
  then show ?case by simp
next
  case (Cons r rs)
  show ?case
  proof (cases "markReady r 0 (statuses sl) sl idle")
    case (Inl a)
    with markReady_wf [OF Cons.prems, of r 0 "statuses sl" idle] show ?thesis by simp
  next
    case (Inr b)
    obtain sl' idle' where b: "b = (sl', idle')" by (cases b)
    with markReady_wf [OF Cons.prems, of r 0 "statuses sl" idle] Inr
    have "statusListWf sl'" by simp
    from Cons.IH [OF this] Inr b show ?thesis by simp
  qed
qed

text \<open>The index that the second block keeps is the index of an IDLE status.\<close>

lemma markReady_index:
  "ss = drop i ss0 \<Longrightarrow>
   (\<forall>j. idle = Some j \<longrightarrow> j < length ss0 \<and> state (heap sl (ss0 ! j)) = IDLE) \<Longrightarrow>
   markReady r i ss sl idle = Inr (sl', idle') \<Longrightarrow>
   (\<forall>j. idle' = Some j \<longrightarrow> j < length ss0 \<and> state (heap sl' (ss0 ! j)) = IDLE)"
proof (induction ss arbitrary: i sl idle)
  case Nil
  then show ?case by simp
next
  case (Cons status rest)
  from Cons.prems(1) have i: "i < length ss0"
    by (metis drop_all leI list.distinct(1))
  with Cons.prems(1) have hd: "ss0 ! i = status" and tl: "rest = drop (i + 1) ss0"
    by (simp_all add: Cons_nth_drop_Suc [symmetric])
  show ?case
  proof (cases "state (heap sl status) = IDLE")
    case True
    with Cons.prems(3) have "markReady r (i + 1) rest sl (Some i) = Inr (sl', idle')" by simp
    from Cons.IH [OF tl _ this] True i hd show ?thesis by simp
  next
    case notIdle: False
    show ?thesis
    proof (cases "ref (heap sl status) = Some r")
      case True
      with notIdle Cons.prems(3) have busy: "state (heap sl status) = BUSY"
        by (auto split: if_splits)
      with True notIdle Cons.prems(3)
      have "markReady r (i + 1) rest (setRef (updateState sl status IDLE) status None) (Some i)
              = Inr (sl', idle')" by simp
      from Cons.IH [OF tl _ this] i hd show ?thesis by (simp add: updateState_state)
    next
      case False
      with notIdle Cons.prems(3) have "markReady r (i + 1) rest sl idle = Inr (sl', idle')" by simp
      from Cons.IH [OF tl Cons.prems(2) this] show ?thesis .
    qed
  qed
qed

lemma markAllReady_index:
  "(\<forall>j. idle = Some j \<longrightarrow> j < length (statuses sl) \<and> state (heap sl (statuses sl ! j)) = IDLE) \<Longrightarrow>
   markAllReady rs sl idle = Inr (sl', idle') \<Longrightarrow>
   (\<forall>j. idle' = Some j \<longrightarrow> j < length (statuses sl') \<and> state (heap sl' (statuses sl' ! j)) = IDLE)"
proof (induction rs arbitrary: sl idle)
  case Nil
  then show ?case by simp
next
  case (Cons r rs)
  from Cons.prems(2) obtain sl1 idle1
    where m: "markReady r 0 (statuses sl) sl idle = Inr (sl1, idle1)"
      and rest: "markAllReady rs sl1 idle1 = Inr (sl', idle')"
    by (auto split: sum.splits)
  have s1: "statuses sl1 = statuses sl" by (rule markReady_statuses(1) [OF m])
  from markReady_index [OF _ Cons.prems(1) m]
  have "\<forall>j. idle1 = Some j \<longrightarrow> j < length (statuses sl1) \<and> state (heap sl1 (statuses sl1 ! j)) = IDLE"
    by (simp add: s1)
  from Cons.IH [OF this rest] show ?case .
qed

lemma scanStatuses_FoundIdle:
  "scanStatuses h i ss out = FoundIdle j s \<Longrightarrow> s \<in> set ss \<and> state (h s) = IDLE"
  by (induction ss arbitrary: i out) (auto split: if_splits)

lemma firstBlock_wf:
  "statusListWf sl \<Longrightarrow> firstBlock sl = Ends res sl' \<Longrightarrow> statusListWf sl'"
  by (auto simp: firstBlock_def split: if_splits scanResult.splits
      dest!: scanStatuses_FoundIdle intro!: statusListWf_updateState)

lemma pickActorBalanced_wf:
  "statusListWf sl \<Longrightarrow> statusListWf (snd (pickActorBalanced sl timeout waits))"
proof (induction waits arbitrary: sl)
  case Nil
  then show ?case by (auto split: firstBlock.splits dest: firstBlock_wf)
next
  case (Cons d waits)
  show ?case
  proof (cases "firstBlock sl")
    case (Ends res sl')
    with firstBlock_wf [OF Cons.prems Ends] show ?thesis by simp
  next
    case (Waits outstanding)
    show ?thesis
    proof (cases "length d = 0")
      case True
      with Waits Cons.prems show ?thesis by (simp split: option.splits)
    next
      case False
      show ?thesis
      proof (cases "markAllReady d sl None")
        case (Inl a)
        with markAllReady_wf [OF Cons.prems, of d None] Waits False show ?thesis
          by (simp split: prod.splits)
      next
        case (Inr b)
        obtain sl' idle' where b: "b = (sl', idle')" by (cases b)
        with markAllReady_wf [OF Cons.prems, of d None] Inr have wf': "statusListWf sl'" by simp
        from markAllReady_index [of None sl d sl' idle'] Inr b
        have idx: "\<forall>j. idle' = Some j \<longrightarrow>
                     j < length (statuses sl') \<and> state (heap sl' (statuses sl' ! j)) = IDLE"
          by simp
        show ?thesis
        proof (cases idle')
          case None
          with Waits False Inr b Cons.IH [OF wf'] show ?thesis by simp
        next
          case (Some j)
          with idx have j: "j < length (statuses sl')" "state (heap sl' (statuses sl' ! j)) = IDLE"
            by auto
          have "statusListWf (updateState sl' (statuses sl' ! j) RESERVED)"
            using j by (intro statusListWf_updateState wf') simp_all
          with Waits False Inr b Some j show ?thesis by simp
        qed
      qed
    qed
  qed
qed

lemma count_three:
  "length (filter (\<lambda>s. state (h s) = IDLE) ss) + length (filter (\<lambda>s. state (h s) = RESERVED) ss)
     + length (filter (\<lambda>s. state (h s) = BUSY) ss) = length ss"
proof (induction ss)
  case Nil
  then show ?case by simp
next
  case (Cons a ss)
  then show ?case by (cases "state (h a)") simp_all
qed

lemma statusListWf_invariant: "statusListWf sl \<Longrightarrow> statusListInvariant sl"
  using count_three [of "heap sl" "statuses sl"]
  by (simp add: statusListWf_def statusListInvariant_def countState_def)

lemma PolicyBalance_init_wf:
  "statusListWf (sList (PolicyBalance_init n))" "actorsWf (PolicyBalance_init n)"
  by (simp_all add: statusListWf_def actorsWf_def PolicyBalance_init_def statusList_init_def
      actorStatus_init_def countState_def)

lemma statusListWf_scaleUp:
  assumes "statusListWf (sList p)"
  shows "statusListWf (sList (PolicyBalance_scaleUp p))"
proof -
  define sl where "sl = sList p"
  define sl' where "sl' = sList (PolicyBalance_scaleUp p)"
  have f: "statuses sl' = statuses sl @ [nextStatus sl]" "nextStatus sl' = Suc (nextStatus sl)"
    "nReserved sl' = nReserved sl" "heap sl' = (heap sl)(nextStatus sl := actorStatus_init)"
    by (simp_all add: sl'_def sl_def PolicyBalance_scaleUp_def newStatus_def Let_def)
  from assms have wf: "distinct (statuses sl)" "\<forall>s \<in> set (statuses sl). s < nextStatus sl"
    "nReserved sl = int (countState sl RESERVED)"
    "\<forall>s. s \<notin> set (statuses sl) \<longrightarrow> state (heap sl s) \<noteq> RESERVED"
    by (simp_all add: statusListWf_def sl_def)
  from wf(2) have fresh: "nextStatus sl \<notin> set (statuses sl)" by auto
  have "length (filter (\<lambda>s. state (heap sl' s) = RESERVED) (statuses sl))
          = length (filter (\<lambda>s. state (heap sl s) = RESERVED) (statuses sl))"
    using fresh by (intro count_same) (auto simp: f(4))
  then have "countState sl' RESERVED = countState sl RESERVED"
    by (simp add: countState_def f(1)) (simp add: f(4) actorStatus_init_def)
  with wf fresh show ?thesis
    unfolding sl'_def [symmetric] statusListWf_def
    by (auto simp: f actorStatus_init_def)
qed

lemma statusListWf_scaleDown:
  assumes "statusListWf (sList p)"
    and "statuses (sList p) \<noteq> [] \<longrightarrow>
         state (heap (sList p) (List.last (statuses (sList p)))) \<noteq> RESERVED"
  shows "statusListWf (sList (snd (PolicyBalance_scaleDown p)))"
proof (cases "statuses (sList p) = []")
  case True
  with assms(1) show ?thesis by (simp add: PolicyBalance_scaleDown_def)
next
  case False
  define sl where "sl = sList p"
  define sl' where "sl' = sList (snd (PolicyBalance_scaleDown p))"
  have f: "sl' = sl\<lparr>statuses := butlast (statuses sl)\<rparr>"
    using False
    by (simp add: sl'_def sl_def PolicyBalance_scaleDown_def Let_def split_def remoteGetStats_simps)
  from assms(1) have wf: "distinct (statuses sl)" "\<forall>s \<in> set (statuses sl). s < nextStatus sl"
    "nReserved sl = int (countState sl RESERVED)"
    "\<forall>s. s \<notin> set (statuses sl) \<longrightarrow> state (heap sl s) \<noteq> RESERVED"
    by (simp_all add: statusListWf_def sl_def)
  from False have split: "statuses sl = butlast (statuses sl) @ [List.last (statuses sl)]"
    by (simp add: sl_def)
  from assms(2) False have tail: "state (heap sl (List.last (statuses sl))) \<noteq> RESERVED"
    by (simp add: sl_def)
  have "countState sl RESERVED = countState sl' RESERVED"
    unfolding countState_def by (subst split) (simp add: f tail)
  with wf(3) have cnt: "nReserved sl = int (countState sl' RESERVED)" by simp
  have mem: "set (statuses sl) = insert (List.last (statuses sl)) (set (butlast (statuses sl)))"
    by (subst split) simp
  have off: "\<forall>s. s \<notin> set (butlast (statuses sl)) \<longrightarrow> state (heap sl s) \<noteq> RESERVED"
  proof (intro allI impI)
    fix s assume notin: "s \<notin> set (butlast (statuses sl))"
    show "state (heap sl s) \<noteq> RESERVED"
    proof (cases "s = List.last (statuses sl)")
      case True
      with tail show ?thesis by simp
    next
      case False
      with notin mem have "s \<notin> set (statuses sl)" by blast
      with wf(4) show ?thesis by blast
    qed
  qed
  from wf(1,2) have "distinct (butlast (statuses sl))"
    "\<forall>s \<in> set (butlast (statuses sl)). s < nextStatus sl"
    by (auto simp: distinct_butlast dest: in_set_butlastD)
  with cnt off show ?thesis
    unfolding sl'_def [symmetric] statusListWf_def by (simp add: f)
qed

text \<open>
  Every operation of a \<^verbatim>\<open>PolicyBalance\<close> keeps the status list well-formed, but for a
  \<^verbatim>\<open>scaleDown\<close> when the last status is RESERVED.
\<close>

lemma statusListWf_step:
  assumes "statusListWf (sList p)"
    and "op = BScaleDown \<longrightarrow> statuses (sList p) \<noteq> [] \<longrightarrow>
         state (heap (sList p) (List.last (statuses (sList p)))) \<noteq> RESERVED"
  shows "statusListWf (sList (runBalanceOp merge p op))"
proof (cases op)
  case (BGetRunner c timeout waits)
  have "sList (snd (PolicyBalance_getRunner p c timeout waits))
          = snd (pickActorBalanced (sList p) timeout waits)"
    by (simp add: PolicyBalance_getRunner_def split: prod.splits outcome.splits option.splits)
  with pickActorBalanced_wf [OF assms(1), of timeout waits] BGetRunner show ?thesis by simp
next
  case (BUpdate c h f)
  have "statusListWf (updateState (setRef (sList p) h (Some r)) h BUSY)" for r
    by (intro statusListWf_updateState statusListWf_setRef assms(1)) simp_all
  with assms(1) BUpdate show ?thesis
    by (simp add: PolicyBalance_update_def split: futures.splits list.splits)
next
  case BScaleUp
  with statusListWf_scaleUp [OF assms(1)] show ?thesis by simp
next
  case BScaleDown
  with statusListWf_scaleDown [OF assms(1)] assms(2) show ?thesis by simp
next
  case BGetStats
  with assms(1) show ?thesis by (simp add: PolicyBalance_getStats_keeps)
qed

text \<open>Every operation keeps the actors and the pending references well-formed.\<close>

lemma remoteGetStats_nextActor [simp]: "nextActor (snd (remoteGetStats p a)) = nextActor p"
  by (simp add: remoteGetStats_def runActor_getStats_def Let_def)

lemma actorsWf_step:
  assumes "actorsWf p"
  shows "actorsWf (runBalanceOp merge p op)"
proof (cases op)
  case (BGetRunner c timeout waits)
  have "pendingActorStats (snd (PolicyBalance_getRunner p c timeout waits)) = pendingActorStats p"
    "nextRef (snd (PolicyBalance_getRunner p c timeout waits)) = nextRef p"
    "nextActor (snd (PolicyBalance_getRunner p c timeout waits)) = nextActor p"
    by (simp_all add: PolicyBalance_getRunner_def split: prod.splits outcome.splits option.splits)
  with assms BGetRunner show ?thesis by (simp add: actorsWf_def PolicyBalance_getRunner_keeps)
next
  case (BUpdate c h f)
  have "pendingActorStats (snd (PolicyBalance_update p c h f)) = pendingActorStats p"
    "nextRef (snd (PolicyBalance_update p c h f)) = nextRef p"
    "nextActor (snd (PolicyBalance_update p c h f)) = nextActor p"
    by (simp_all add: PolicyBalance_update_def split: futures.splits list.splits)
  with assms BUpdate show ?thesis by (simp add: actorsWf_def PolicyBalance_update_keeps)
next
  case BScaleUp
  with assms show ?thesis
    by (auto simp: actorsWf_def PolicyBalance_scaleUp_def newStatus_def Let_def)
next
  case BScaleDown
  with assms show ?thesis
    by (auto simp: actorsWf_def PolicyBalance_scaleDown_def Let_def split_def remoteGetStats_simps
        distinct_butlast dest: in_set_butlastD)
next
  case BGetStats
  have "nextActor (collectStats q as) = nextActor q" for q :: "('a, 'b, 'c) PolicyBalance" and as
    by (induction as arbitrary: q) (simp_all add: split_def remoteGetStats_def runActor_getStats_def Let_def)
  with assms BGetStats show ?thesis
    by (simp add: actorsWf_def PolicyBalance_getStats_def Let_def collectStats_keeps)
qed

text \<open>
  So the invariant of C1 holds after every sequence of operations without
  \<^verbatim>\<open>scaleDown\<close>, and the actors and the pending references are well-formed after
  every sequence of operations.
\<close>

lemma statusList_without_scaleDown:
  "BScaleDown \<notin> set ops \<Longrightarrow>
   statusListInvariant (sList (foldl (runBalanceOp merge) (PolicyBalance_init n) ops))"
proof -
  have "statusListWf (sList p) \<Longrightarrow> BScaleDown \<notin> set ops \<Longrightarrow>
        statusListWf (sList (foldl (runBalanceOp merge) p ops))"
    for p :: "('a, 'b, 'c) PolicyBalance"
  proof (induction ops arbitrary: p)
    case Nil
    then show ?case by simp
  next
    case (Cons op ops)
    from Cons.prems have "statusListWf (sList (runBalanceOp merge p op))"
      by (intro statusListWf_step) auto
    from Cons.IH [OF this] Cons.prems(2) show ?case by simp
  qed
  from this [OF PolicyBalance_init_wf(1)] show "BScaleDown \<notin> set ops \<Longrightarrow> ?thesis"
    by (rule statusListWf_invariant)
qed

lemma actorsWf_reachable:
  "actorsWf (foldl (runBalanceOp merge) (PolicyBalance_init n) ops)"
proof -
  have "actorsWf p \<Longrightarrow> actorsWf (foldl (runBalanceOp merge) p ops)"
    for p :: "('a, 'b, 'c) PolicyBalance"
    by (induction ops arbitrary: p) (simp_all add: actorsWf_step)
  from this [OF PolicyBalance_init_wf(2)] show ?thesis .
qed

text \<open>
  In a \<^verbatim>\<open>PolicyExclusive\<close> the count that \<^verbatim>\<open>scaleDown\<close> leaves behind makes
  \<^verbatim>\<open>_makeRoom\<close> wait where its comment says that it will not block. With a budget of one
  runner, tenant 0 gets the runner and tenant 1 takes it by eviction while it is
  reserved. When tenant 0 asks again, its pool is scaled up, \<^verbatim>\<open>nReserved\<close> is still 1,
  the number of its statuses, and \<^verbatim>\<open>getRunner\<close> waits on the condition variable.
\<close>

lemma getRunner_blocks_after_eviction:
  "fst (PolicyExclusive_getRunner
          (runOps (+) [GetRunner 0 0 [] [[]], GetRunner 1 0 [] [[]]]
             (PolicyExclusive_init 1 :: (nat, unit, nat) PolicyExclusive))
          0 0 [] [[]])
   = BlockedOnReservedCv"
  by code_simp

section \<open>Round robin in general\<close>

text \<open>
  For any number of workers but 0, the \<open>i\<close>-th call (from 0) returns the worker
  \<open>(last + 1 + i) mod n\<close>.
\<close>

lemma PolicyRR_getRunners_cycle:
  assumes "0 < n" and "rrActors p = [0..<n]"
  shows "map_sum id fst (PolicyRR_getRunners k p)
           = Inr (map (\<lambda>i. (lastRR p + Suc i) mod n) [0..<k])"
  using assms(2)
proof (induction k arbitrary: p)
  case 0
  then show ?case by simp
next
  case (Suc k)
  define p' where "p' = p\<lparr>lastRR := (lastRR p + 1) mod n\<rparr>"
  have g: "PolicyRR_getRunner p = Inr ((lastRR p + 1) mod n, p')"
    using assms(1) Suc.prems by (simp add: PolicyRR_getRunner_def p'_def Let_def)
  have "rrActors p' = [0..<n]" using Suc.prems by (simp add: p'_def)
  from Suc.IH [OF this]
  have ih: "map_sum id fst (PolicyRR_getRunners k p')
              = Inr (map (\<lambda>i. ((lastRR p + 1) mod n + Suc i) mod n) [0..<k])"
    by (simp add: p'_def id_def)
  have f: "Suc (Suc (lastRR p) mod n + i) mod n = Suc (Suc (lastRR p + i)) mod n" for i
    by (metis add_Suc_right add_Suc mod_add_left_eq)
  have u: "[0..<Suc k] = 0 # map Suc [0..<k]"
    by (simp add: upt_conv_Cons map_Suc_upt del: upt_Suc)
  obtain as q where r: "PolicyRR_getRunners k p' = Inr (as, q)"
    using ih by (cases "PolicyRR_getRunners k p'") auto
  with ih have as: "as = map (\<lambda>i. (lastRR p + Suc (Suc i)) mod n) [0..<k]"
    by (simp add: f)
  show ?case
    unfolding u by (simp add: g r as o_def del: upt_Suc)
qed

section \<open>The statistics of a removed worker\<close>













text \<open>A pool has as many statuses as actors, in every state that the operations reach.\<close>

lemma lengths_step:
  fixes p :: "('c, 'm, 'p) PolicyBalance"
  assumes "length (statuses (sList p)) = length (actors p)"
  shows "length (statuses (sList (runBalanceOp merge p op))) = length (actors (runBalanceOp merge p op))"
proof (cases op)
  case (BGetRunner c t w)
  with assms show ?thesis by (simp add: PolicyBalance_getRunner_keeps)
next
  case (BUpdate c h f)
  with assms show ?thesis by (simp add: PolicyBalance_update_keeps)
next
  case BScaleUp
  with assms show ?thesis by (simp add: PolicyBalance_scaleUp_lengths)
next
  case BScaleDown
  with assms show ?thesis
    by (auto simp add: PolicyBalance_scaleDown_def Let_def split_def remoteGetStats_simps)
next
  case BGetStats
  with assms show ?thesis by (simp add: PolicyBalance_getStats_keeps)
qed

lemma lengths_run:
  fixes p :: "('c, 'm, 'p) PolicyBalance"
  shows "length (statuses (sList p)) = length (actors p) \<Longrightarrow>
         length (statuses (sList (foldl (runBalanceOp merge) p ops)))
           = length (actors (foldl (runBalanceOp merge) p ops))"
  by (induction ops arbitrary: p) (simp_all add: lengths_step)

lemma lengths_reachable:
  "length (statuses (sList (foldl (runBalanceOp merge)
             (PolicyBalance_init n :: ('c, 'm, 'p) PolicyBalance) ops)))
     = length (actors (foldl (runBalanceOp merge)
             (PolicyBalance_init n :: ('c, 'm, 'p) PolicyBalance) ops))"
  by (rule lengths_run) (simp add: PolicyBalance_init_def statusList_init_def)



end
